theory Spec2Isabelle
  imports Complex_Main "HOL-Library.Word"
begin

section \<open>influx-killer: worker lifecycle and coordinated shutdown\<close>

text \<open>
  A shallow embedding of \<^verbatim>\<open>main.go\<close>. The sequential code (\<^verbatim>\<open>NewWorker\<close>,
  \<^verbatim>\<open>Worker.Write\<close>, the validation at the head of \<^verbatim>\<open>startStress\<close>) is written as
  functions. The goroutines (\<^verbatim>\<open>main\<close> inside \<^verbatim>\<open>startStress\<close>, the signal listener and
  one \<^verbatim>\<open>Worker.Work\<close> per constructed worker) are program counters in one state, and
  an executable step function interleaves them over the two channels \<^verbatim>\<open>cancel\<close> and
  \<^verbatim>\<open>done\<close>.

  What is outside the repository (the InfluxDB client, \<^verbatim>\<open>math/rand\<close>, the clock, the
  operating system's signals) is an input: an \<open>env\<close> record gives the answers of the
  library to the calls one step makes.
\<close>

subsection \<open>Numbers and durations\<close>

text \<open>
  A \<^verbatim>\<open>float64\<close> is modelled by the real number it denotes, and the \<^verbatim>\<open>float64\<close> operations
  \<^verbatim>\<open>*\<close> and \<^verbatim>\<open>-\<close> by the exact ones: rounding is not part of the model.
  \<^verbatim>\<open>time.Duration\<close> is an \<^verbatim>\<open>int64\<close> count of nanoseconds.
\<close>

type_synonym float64 = real
type_synonym Duration = "64 word"

definition Millisecond :: Duration where
  "Millisecond = 1000000"

definition Second :: Duration where
  "Second = 1000000000"

text \<open>
  The conversion \<^verbatim>\<open>time.Duration(x)\<close> of a \<^verbatim>\<open>float64\<close>: Go discards the fraction
  (truncation towards zero). For a value outside \<^verbatim>\<open>int64\<close> Go leaves the result to the
  implementation; the model takes the smallest \<^verbatim>\<open>int64\<close> there, as amd64 does.
\<close>

definition trunc_float64 :: "float64 \<Rightarrow> int" where
  "trunc_float64 x = (if 0 \<le> x then \<lfloor>x\<rfloor> else - \<lfloor>- x\<rfloor>)"

definition Duration_of_float64 :: "float64 \<Rightarrow> Duration" where
  "Duration_of_float64 x =
     (if - (2 ^ 63) \<le> trunc_float64 x \<and> trunc_float64 x < 2 ^ 63
      then word_of_int (trunc_float64 x) else word_of_int (- (2 ^ 63)))"

text \<open>
  Line 138 and line 152: \<^verbatim>\<open>time.Duration(x*1000) * time.Millisecond\<close>. Go rounds the
  product \<^verbatim>\<open>x*1000\<close> to a \<^verbatim>\<open>float64\<close> before it discards the fraction, and \<open>x\<close> itself
  is the \<^verbatim>\<open>float64\<close> nearest to the decimal on the command line. The model does neither:
  where the rounded product and the exact one lie on different sides of a whole number,
  its count of milliseconds differs from Go's by one (for the \<^verbatim>\<open>float64\<close> nearest to 0.57
  Go gives 570 and the model 569). No property below rests on such a value; the values
  used in the examples (5, 1.3 and 66.6) give the same count in both.
\<close>

definition milliseconds :: "float64 \<Rightarrow> Duration" where
  "milliseconds x = Duration_of_float64 (x * 1000) * Millisecond"

text \<open>Line 212: \<^verbatim>\<open>time.Second * time.Duration(to)\<close>, the argument of \<^verbatim>\<open>time.After\<close>.\<close>

definition deadline :: "float64 \<Rightarrow> Duration" where
  "deadline to = Second * Duration_of_float64 to"

subsection \<open>Errors, signals and log entries\<close>

datatype error = Error string

text \<open>\<^verbatim>\<open>cli.NewExitError(message, exitCode)\<close>.\<close>

datatype exit_error = ExitError string int

datatype signal = SIGHUP | SIGINT | SIGQUIT | SIGTERM

datatype level = DebugLevel | ErrorLevel

datatype field =
    FString string
  | FInt int
  | FDuration Duration
  | FError error
  | FSignal signal

text \<open>
  One call of the logger: \<^verbatim>\<open>log.WithFields(fields).Debug(msg)\<close> or \<^verbatim>\<open>.Error(msg)\<close>.
  The state keeps the calls in order; which of them the configured level prints is the
  logger's business.
\<close>

type_synonym entry = "level \<times> (string \<times> field) list \<times> string"

subsection \<open>The library, as an environment\<close>

record HTTPConfig =
  Addr :: string
  Timeout :: Duration

datatype client = HTTPClient HTTPConfig

record BatchPointsConfig =
  Database :: string
  Precision :: string

record Point =
  p_name :: string
  p_tags :: "string \<rightharpoonup> string"
  p_fields :: "string \<rightharpoonup> float64"
  p_time :: int

record BatchPoints =
  config :: BatchPointsConfig
  points :: "Point list"

text \<open>
  The answers of the world to the calls of one step. The validation errors of the
  client library are functions of the arguments; \<open>rand_Intn e i n\<close> is what the
  \<open>i\<close>-th call \<^verbatim>\<open>rand.Intn(n)\<close> of a batch returns, \<open>rand_Float64 e i\<close> and
  \<open>time_Now e i\<close> likewise.
\<close>

record env =
  http_client_error :: "HTTPConfig \<Rightarrow> error option"
  batch_points_error :: "BatchPointsConfig \<Rightarrow> error option"
  point_error :: "string \<Rightarrow> (string \<rightharpoonup> string) \<Rightarrow> (string \<rightharpoonup> float64) \<Rightarrow> error option"
  write_error :: "client \<Rightarrow> BatchPoints \<Rightarrow> error option"
  close_error :: "client \<Rightarrow> error option"
  rand_Intn :: "nat \<Rightarrow> nat \<Rightarrow> nat"
  rand_Float64 :: "nat \<Rightarrow> float64"
  time_Now :: "nat \<Rightarrow> int"

definition NewHTTPClient :: "env \<Rightarrow> HTTPConfig \<Rightarrow> error + client" where
  "NewHTTPClient e conf =
     (case http_client_error e conf of Some err \<Rightarrow> Inl err | None \<Rightarrow> Inr (HTTPClient conf))"

definition NewBatchPoints :: "env \<Rightarrow> BatchPointsConfig \<Rightarrow> error + BatchPoints" where
  "NewBatchPoints e conf =
     (case batch_points_error e conf of
        Some err \<Rightarrow> Inl err
      | None \<Rightarrow> Inr \<lparr>config = conf, points = []\<rparr>)"

definition NewPoint ::
  "env \<Rightarrow> string \<Rightarrow> (string \<rightharpoonup> string) \<Rightarrow> (string \<rightharpoonup> float64) \<Rightarrow> int \<Rightarrow> error + Point" where
  "NewPoint e nm tgs flds t =
     (case point_error e nm tgs flds of
        Some err \<Rightarrow> Inl err
      | None \<Rightarrow> Inr \<lparr>p_name = nm, p_tags = tgs, p_fields = flds, p_time = t\<rparr>)"

definition AddPoint :: "BatchPoints \<Rightarrow> Point \<Rightarrow> BatchPoints" where
  "AddPoint bp p = bp\<lparr>points := points bp @ [p]\<rparr>"

subsection \<open>The worker\<close>

text \<open>
  \<^verbatim>\<open>startStress\<close> makes one \<^verbatim>\<open>cancel\<close> and one \<^verbatim>\<open>done\<close> channel and hands the same
  two to every worker, so a channel handle is one of these two names.
\<close>

datatype chan = cancel_chan | done_chan

record Worker =
  Client :: client
  Hostname :: string
  DB :: string
  NumPoints :: int
  Interval :: Duration
  Done :: chan
  Cancel :: chan

definition regions :: "string list" where
  "regions = [''eu-west-1'', ''eu-west-2'', ''us-east-1'', ''us-east-2'']"

definition max_idle :: float64 where
  "max_idle = 100"

text \<open>
  The body of the loop of \<^verbatim>\<open>Write\<close> (lines 112 to 122) up to \<^verbatim>\<open>client.NewPoint\<close>.
  \<open>None\<close> is the runtime panic of an index outside \<^verbatim>\<open>regions\<close>.
\<close>

definition make_point :: "env \<Rightarrow> Worker \<Rightarrow> nat \<Rightarrow> (error + Point) option" where
  "make_point e w i =
     (let k = rand_Intn e i (length regions) in
      if k < length regions then
        let tgs = [''cpu'' \<mapsto> ''cpu-total'', ''host'' \<mapsto> Hostname w, ''region'' \<mapsto> regions ! k];
            idle = rand_Float64 e i * max_idle;
            flds = [''idle'' \<mapsto> idle, ''busy'' \<mapsto> max_idle - idle]
        in Some (NewPoint e ''cpu_usage'' tgs flds (time_Now e i))
      else None)"

text \<open>
  The loop \<^verbatim>\<open>for i := 0; i < w.NumPoints; i++\<close>. It ends with the error of the first
  point the library refuses, or with the batch.
\<close>

function Write_loop :: "env \<Rightarrow> Worker \<Rightarrow> nat \<Rightarrow> BatchPoints \<Rightarrow> (error + BatchPoints) option" where
  "Write_loop e w i bp =
     (if int i < NumPoints w then
        (case make_point e w i of
           None \<Rightarrow> None
         | Some (Inl err) \<Rightarrow> Some (Inl err)
         | Some (Inr p) \<Rightarrow> Write_loop e w (Suc i) (AddPoint bp p))
      else Some (Inr bp))"
  by pat_completeness auto
termination
  by (relation "measure (\<lambda>(e, w, i, bp). nat (NumPoints w) - i)") auto

text \<open>
  \<^verbatim>\<open>Worker.Write\<close>: the log entries it makes and the error it returns (\<open>None\<close> is
  \<^verbatim>\<open>nil\<close>); the outer \<open>None\<close> is the panic.
\<close>

definition Write :: "env \<Rightarrow> Worker \<Rightarrow> (entry list \<times> error option) option" where
  "Write e w =
     (case NewBatchPoints e \<lparr>Database = DB w, Precision = ''ms''\<rparr> of
        Inl err \<Rightarrow>
          Some ([(ErrorLevel, [(''worker'', FString (Hostname w)), (''error'', FError err)],
                  ''Create batch points'')], Some err)
      | Inr bp \<Rightarrow>
          (case Write_loop e w 0 bp of
             None \<Rightarrow> None
           | Some (Inl err) \<Rightarrow>
               Some ([(ErrorLevel, [(''worker'', FString (Hostname w)), (''error'', FError err)],
                       ''Create point'')], Some err)
           | Some (Inr bp') \<Rightarrow> Some ([], write_error e (Client w) bp')))"

definition NewWorker ::
  "env \<Rightarrow> string \<Rightarrow> string \<Rightarrow> string \<Rightarrow> int \<Rightarrow> float64 \<Rightarrow> float64 \<Rightarrow> chan \<Rightarrow> chan
     \<Rightarrow> entry list \<times> Worker option" where
  "NewWorker e hostname db addr numpoints interval timeout cancel done =
     (case NewHTTPClient e \<lparr>Addr = addr, Timeout = milliseconds timeout\<rparr> of
        Inl err \<Rightarrow>
          ([(ErrorLevel, [(''worker'', FString hostname), (''error'', FError err)],
             ''Create HTTP client'')], None)
      | Inr c \<Rightarrow>
          ([], Some \<lparr>Client = c, Hostname = hostname, DB = db, NumPoints = numpoints,
                     Interval = milliseconds interval, Done = done, Cancel = cancel\<rparr>))"

subsection \<open>The flags and the state of one run\<close>

text \<open>
  The values \<^verbatim>\<open>startStress\<close> reads from the command line (lines 159 to 166).
  \<^verbatim>\<open>num-hosts\<close> is a \<^verbatim>\<open>cli.UintFlag\<close>, so the count of workers is a natural number.
\<close>

record config =
  num_hosts :: nat
  num_points :: int
  interval :: float64
  timeout :: float64
  host_prefix :: string
  db :: string
  url :: string
  write_timeout :: float64

text \<open>\<^verbatim>\<open>fmt.Sprintf("%s-%05d", hp, i)\<close>.\<close>

fun decimal :: "nat \<Rightarrow> string" where
  "decimal n =
     (if n < 10 then [''0123456789'' ! n] else decimal (n div 10) @ [''0123456789'' ! (n mod 10)])"

declare decimal.simps [simp del]

definition hostname :: "string \<Rightarrow> nat \<Rightarrow> string" where
  "hostname hp i = hp @ ''-'' @ replicate (5 - length (decimal i)) CHR ''0'' @ decimal i"

text \<open>
  Where each goroutine stands.
  \<^descr> \<open>main\<close>: \<open>MSpawn i\<close> at the head of the loop of line 200 with index \<open>i\<close>;
    \<open>MSelect\<close> in the \<^verbatim>\<open>select\<close> of line 211, waiting for \<^verbatim>\<open>time.After\<close>;
    \<open>MCancel i\<close> at the head of the loop of \<^verbatim>\<open>cancel_workers\<close>; \<open>MAwait i\<close> at the head
    of the loop of \<^verbatim>\<open>await_workers\<close>; \<open>MReturned\<close> after \<^verbatim>\<open>return nil\<close>.
  \<^descr> the signal listener of line 192: \<open>SWait\<close> in \<^verbatim>\<open><-sig\<close>, \<open>SCancel i\<close> at the head of
    the loop of \<^verbatim>\<open>cancel_workers\<close>, \<open>SExit\<close> at its end.
  \<^descr> a worker: \<open>WDelay\<close> in the random sleep of line 205; \<open>WPoll\<close> at the \<^verbatim>\<open>select\<close> of
    line 61; \<open>WWrite\<close> inside \<^verbatim>\<open>w.Write()\<close>; \<open>WSleep\<close> inside \<^verbatim>\<open>time.Sleep\<close>;
    \<open>WClose\<close> inside \<^verbatim>\<open>w.Client.Close()\<close>; \<open>WSendDone\<close> in \<^verbatim>\<open>w.Done <- true\<close>;
    \<open>WReturned\<close> after \<^verbatim>\<open>return\<close>.

  The model has no clock: a sleep, a call of the library or a blocked channel operation
  is a place, and its end is a step.
\<close>

datatype main_pc = MSpawn nat | MSelect | MCancel nat | MAwait nat | MReturned

datatype sig_pc = SWait | SCancel nat | SExit

datatype work_pc = WDelay | WPoll | WWrite | WSleep | WClose | WSendDone | WReturned

text \<open>
  \<open>cancel\<close> is the number of values in the buffer of the channel \<^verbatim>\<open>cancel\<close>, whose
  capacity is \<^verbatim>\<open>nw\<close>; \<^verbatim>\<open>done\<close> has no buffer, so it has no state. \<open>received\<close> is
  not a variable of the program: it lists, oldest first, the workers whose value
  \<open>main\<close> has received on \<^verbatim>\<open>done\<close>. \<open>timer\<close> is the duration \<^verbatim>\<open>time.After\<close> was
  called with.
\<close>

record sys =
  flags :: config
  main :: main_pc
  listener :: sig_pc
  workers :: "(Worker \<times> work_pc) list"
  cancel :: nat
  received :: "nat list"
  timer :: "Duration option"
  logs :: "entry list"

subsection \<open>\<^verbatim>\<open>Worker.Work\<close>\<close>

text \<open>
  One step of \<^verbatim>\<open>Work\<close> from the place \<open>pc\<close>. \<open>ready\<close> says whether a value waits
  in \<^verbatim>\<open>w.Cancel\<close>. The result is the next place, whether the step took a value from
  \<^verbatim>\<open>w.Cancel\<close>, and the log entries of the step. \<open>None\<close>: the worker cannot move by
  itself (it is blocked in the send on \<^verbatim>\<open>w.Done\<close>, or has returned), or \<^verbatim>\<open>Write\<close>
  has panicked.
\<close>

fun Work :: "env \<Rightarrow> bool \<Rightarrow> Worker \<Rightarrow> work_pc \<Rightarrow> (work_pc \<times> bool \<times> entry list) option" where
  "Work e ready w WDelay = Some (WPoll, False, [])"
| "Work e ready w WPoll =
     (if ready
      then Some (WClose, True, [(DebugLevel, [(''worker'', FString (Hostname w))], ''Quitting...'')])
      else Some (WWrite, False,
             [(DebugLevel, [(''worker'', FString (Hostname w)), (''num_points'', FInt (NumPoints w))],
               ''Writing...'')]))"
| "Work e ready w WWrite =
     (case Write e w of
        None \<Rightarrow> None
      | Some (lg, err) \<Rightarrow>
          Some (WSleep, False,
            lg @
            (case err of
               Some x \<Rightarrow>
                 [(ErrorLevel, [(''worker'', FString (Hostname w)), (''error'', FError x)],
                   ''Client write'')]
             | None \<Rightarrow> []) @
            [(DebugLevel, [(''worker'', FString (Hostname w)), (''interval'', FDuration (Interval w))],
              ''Sleeping...'')]))"
| "Work e ready w WSleep = Some (WPoll, False, [])"
| "Work e ready w WClose =
     Some (WSendDone, False,
       (case close_error e (Client w) of
          Some x \<Rightarrow>
            [(ErrorLevel, [(''worker'', FString (Hostname w)), (''error'', FError x)],
              ''Client close'')]
        | None \<Rightarrow> []))"
| "Work e ready w WSendDone = None"
| "Work e ready w WReturned = None"

subsection \<open>The steps of the run\<close>

text \<open>
  An event is one step of one goroutine, with the answers of the world it needs:
  \<^descr> \<open>EvMain e\<close>: \<open>main\<close> moves (one \<^verbatim>\<open>NewWorker\<close> and \<^verbatim>\<open>go\<close>, one send on
    \<^verbatim>\<open>cancel\<close>, or leaving a loop);
  \<^descr> \<open>EvDeadline\<close>: the timer of \<^verbatim>\<open>time.After\<close> fires and \<open>main\<close> receives from it;
  \<^descr> \<open>EvSignal sg\<close>: the process gets the signal \<open>sg\<close>;
  \<^descr> \<open>EvListener\<close>: the signal listener moves;
  \<^descr> \<open>EvWork j e\<close>: worker \<open>j\<close> (in the order of construction) moves;
  \<^descr> \<open>EvDone j\<close>: worker \<open>j\<close> sends on \<^verbatim>\<open>done\<close> and \<open>main\<close> receives.
\<close>

datatype event =
    EvMain env
  | EvDeadline
  | EvSignal signal
  | EvListener
  | EvWork nat env
  | EvDone nat

text \<open>
  One iteration of \<^verbatim>\<open>cancel_workers\<close>: \<^verbatim>\<open>cancel <- true\<close>. The send blocks (\<open>None\<close>)
  while the buffer, of capacity \<^verbatim>\<open>nw\<close>, is full.
\<close>

definition send_cancel :: "sys \<Rightarrow> sys option" where
  "send_cancel s =
     (if cancel s < num_hosts (flags s) then Some (s\<lparr>cancel := Suc (cancel s)\<rparr>) else None)"

definition main_step :: "env \<Rightarrow> sys \<Rightarrow> sys option" where
  "main_step e s =
     (let c = flags s; nw = num_hosts c in
      case main s of
        MSpawn i \<Rightarrow>
          if i < nw then
            (case NewWorker e (hostname (host_prefix c) i) (db c) (url c) (num_points c)
                    (interval c) (write_timeout c) cancel_chan done_chan of
               (lg, None) \<Rightarrow> Some (s\<lparr>main := MSpawn (Suc i), logs := logs s @ lg\<rparr>)
             | (lg, Some w) \<Rightarrow>
                 Some (s\<lparr>main := MSpawn (Suc i), workers := workers s @ [(w, WDelay)],
                         logs := logs s @ lg\<rparr>))
          else Some (s\<lparr>main := MSelect, timer := Some (deadline (timeout c))\<rparr>)
      | MSelect \<Rightarrow> None
      | MCancel i \<Rightarrow>
          if i < nw then map_option (\<lambda>s'. s'\<lparr>main := MCancel (Suc i)\<rparr>) (send_cancel s)
          else Some (s\<lparr>main := MAwait 0\<rparr>)
      | MAwait i \<Rightarrow> if i < nw then None else Some (s\<lparr>main := MReturned\<rparr>)
      | MReturned \<Rightarrow> None)"

definition deadline_step :: "sys \<Rightarrow> sys option" where
  "deadline_step s = (case main s of MSelect \<Rightarrow> Some (s\<lparr>main := MCancel 0\<rparr>) | _ \<Rightarrow> None)"

text \<open>
  \<^verbatim>\<open>sig\<close> has room for one signal and only the first is ever read: a later signal
  changes nothing.
\<close>

definition signal_step :: "signal \<Rightarrow> sys \<Rightarrow> sys option" where
  "signal_step sg s =
     (case listener s of
        SWait \<Rightarrow>
          Some (s\<lparr>listener := SCancel 0,
                  logs := logs s @ [(DebugLevel, [(''signal'', FSignal sg)], ''Exiting from signal'')]\<rparr>)
      | _ \<Rightarrow> Some s)"

definition listener_step :: "sys \<Rightarrow> sys option" where
  "listener_step s =
     (case listener s of
        SWait \<Rightarrow> None
      | SCancel i \<Rightarrow>
          if i < num_hosts (flags s)
          then map_option (\<lambda>s'. s'\<lparr>listener := SCancel (Suc i)\<rparr>) (send_cancel s)
          else Some (s\<lparr>listener := SExit\<rparr>)
      | SExit \<Rightarrow> None)"

definition work_step :: "nat \<Rightarrow> env \<Rightarrow> sys \<Rightarrow> sys option" where
  "work_step j e s =
     (if j < length (workers s) then
        (case workers s ! j of (w, pc) \<Rightarrow>
           (case Work e (0 < cancel s) w pc of
              None \<Rightarrow> None
            | Some (pc', took, lg) \<Rightarrow>
                Some (s\<lparr>workers := (workers s)[j := (w, pc')],
                        cancel := (if took then cancel s - 1 else cancel s),
                        logs := logs s @ lg\<rparr>)))
      else None)"

text \<open>
  The meeting on \<^verbatim>\<open>done\<close>: worker \<open>j\<close> is in \<^verbatim>\<open>w.Done <- true\<close> (line 73) and
  \<open>main\<close> in \<^verbatim>\<open><-done\<close> (line 187).
\<close>

definition done_step :: "nat \<Rightarrow> sys \<Rightarrow> sys option" where
  "done_step j s =
     (case main s of
        MAwait i \<Rightarrow>
          if i < num_hosts (flags s) \<and> j < length (workers s) \<and> snd (workers s ! j) = WSendDone
          then Some (s\<lparr>main := MAwait (Suc i),
                       workers := (workers s)[j := (fst (workers s ! j), WReturned)],
                       received := received s @ [j]\<rparr>)
          else None
      | _ \<Rightarrow> None)"

text \<open>
  When \<^verbatim>\<open>startStress\<close> has returned the process ends, and with it every goroutine:
  no event follows.
\<close>

definition step :: "event \<Rightarrow> sys \<Rightarrow> sys option" where
  "step ev s =
     (if main s = MReturned then None
      else case ev of
        EvMain e \<Rightarrow> main_step e s
      | EvDeadline \<Rightarrow> deadline_step s
      | EvSignal sg \<Rightarrow> signal_step sg s
      | EvListener \<Rightarrow> listener_step s
      | EvWork j e \<Rightarrow> work_step j e s
      | EvDone j \<Rightarrow> done_step j s)"

fun exec :: "event list \<Rightarrow> sys \<Rightarrow> sys option" where
  "exec [] s = Some s"
| "exec (ev # evs) s = (case step ev s of None \<Rightarrow> None | Some s' \<Rightarrow> exec evs s')"

subsection \<open>\<^verbatim>\<open>startStress\<close>\<close>

text \<open>
  The state after line 198, when \<^verbatim>\<open>make\<close> has made the channels: the signals are
  routed to \<^verbatim>\<open>sig\<close> and the listener waits.
\<close>

definition boot :: "config \<Rightarrow> sys" where
  "boot c = \<lparr>flags = c, main = MSpawn 0, listener = SWait, workers = [], cancel = 0,
             received = [], timer = None, logs = []\<rparr>"

text \<open>
  \<^verbatim>\<open>make(chan bool, nw)\<close> at line 176 panics (\<^verbatim>\<open>makechan: size out of range\<close>) when a
  buffer of \<^verbatim>\<open>nw\<close> elements of one byte does not fit the runtime's limit, that is for
  more than \<open>maxAlloc - hchanSize\<close> of them. The two constants are those of the Go
  runtime on linux/amd64.
\<close>

definition maxAlloc :: nat where
  "maxAlloc = 2 ^ 48"

definition hchanSize :: nat where
  "hchanSize = 96"

text \<open>
  \<^verbatim>\<open>startStress\<close> under the schedule \<open>evs\<close>: the exit error of the validation
  (\<open>Inl\<close>), or the state the events lead to. \<open>Inr None\<close> means that there is no such
  state: \<^verbatim>\<open>make\<close> has panicked, or the events cannot happen in this order (which
  includes a panic of \<^verbatim>\<open>Write\<close>). The call has returned \<^verbatim>\<open>nil\<close> in a state whose
  \<open>main\<close> is \<open>MReturned\<close>.
\<close>

definition startStress :: "config \<Rightarrow> event list \<Rightarrow> exit_error + sys option" where
  "startStress c evs =
     (if url c = [] then Inl (ExitError ''You must specify a URL'' 1)
      else if db c = [] then Inl (ExitError ''You must specify a database'' 2)
      else if maxAlloc - hchanSize < num_hosts c then Inr None
      else Inr (exec evs (boot c)))"

subsection \<open>What a state says of the run\<close>

text \<open>
  Counts read off a state: the iterations of the loop of line 200 that are over, the
  values \<open>main\<close> and the listener have sent on \<^verbatim>\<open>cancel\<close>, the values \<open>main\<close> has
  received on \<^verbatim>\<open>done\<close>, and whether a worker has left its loop (it has taken a value
  from \<^verbatim>\<open>cancel\<close>).
\<close>

fun spawned :: "main_pc \<Rightarrow> nat \<Rightarrow> nat" where
  "spawned (MSpawn i) nw = i"
| "spawned MSelect nw = nw"
| "spawned (MCancel i) nw = nw"
| "spawned (MAwait i) nw = nw"
| "spawned MReturned nw = nw"

fun main_sent :: "main_pc \<Rightarrow> nat \<Rightarrow> nat" where
  "main_sent (MSpawn i) nw = 0"
| "main_sent MSelect nw = 0"
| "main_sent (MCancel i) nw = i"
| "main_sent (MAwait i) nw = nw"
| "main_sent MReturned nw = nw"

fun sig_sent :: "sig_pc \<Rightarrow> nat \<Rightarrow> nat" where
  "sig_sent SWait nw = 0"
| "sig_sent (SCancel i) nw = i"
| "sig_sent SExit nw = nw"

fun awaited :: "main_pc \<Rightarrow> nat \<Rightarrow> nat" where
  "awaited (MSpawn i) nw = 0"
| "awaited MSelect nw = 0"
| "awaited (MCancel i) nw = 0"
| "awaited (MAwait i) nw = i"
| "awaited MReturned nw = nw"

fun stopping :: "work_pc \<Rightarrow> bool" where
  "stopping WDelay = False"
| "stopping WPoll = False"
| "stopping WWrite = False"
| "stopping WSleep = False"
| "stopping WClose = True"
| "stopping WSendDone = True"
| "stopping WReturned = True"

definition cancel_sent :: "sys \<Rightarrow> nat" where
  "cancel_sent s =
     main_sent (main s) (num_hosts (flags s)) + sig_sent (listener s) (num_hosts (flags s))"

definition cancel_taken :: "sys \<Rightarrow> nat" where
  "cancel_taken s = length (filter (\<lambda>x. stopping (snd x)) (workers s))"

definition returned_workers :: "sys \<Rightarrow> nat set" where
  "returned_workers s = {j. j < length (workers s) \<and> snd (workers s ! j) = WReturned}"

definition inv_spawn :: "sys \<Rightarrow> bool" where
  "inv_spawn s =
     (length (workers s) \<le> spawned (main s) (num_hosts (flags s)) \<and>
      spawned (main s) (num_hosts (flags s)) \<le> num_hosts (flags s))"

definition inv_cancel :: "sys \<Rightarrow> bool" where
  "inv_cancel s =
     (main_sent (main s) (num_hosts (flags s)) \<le> num_hosts (flags s) \<and>
      sig_sent (listener s) (num_hosts (flags s)) \<le> num_hosts (flags s) \<and>
      cancel_sent s = cancel s + cancel_taken s)"

definition inv_done :: "sys \<Rightarrow> bool" where
  "inv_done s =
     (awaited (main s) (num_hosts (flags s)) \<le> num_hosts (flags s) \<and>
      distinct (received s) \<and> set (received s) = returned_workers s \<and>
      length (received s) = awaited (main s) (num_hosts (flags s)))"

definition inv :: "sys \<Rightarrow> bool" where
  "inv s = (inv_spawn s \<and> inv_cancel s \<and> inv_done s)"

text \<open>The iterations of the loop of line 200 still to come.\<close>

definition unspawned :: "sys \<Rightarrow> nat" where
  "unspawned s = num_hosts (flags s) - spawned (main s) (num_hosts (flags s))"

text \<open>
  What the loop body of \<^verbatim>\<open>Write\<close> builds as its \<open>i\<close>-th point, field by field.
\<close>

definition generated :: "env \<Rightarrow> Worker \<Rightarrow> nat \<Rightarrow> Point \<Rightarrow> bool" where
  "generated e w i p \<longleftrightarrow>
     p_name p = ''cpu_usage'' \<and>
     dom (p_tags p) = {''cpu'', ''host'', ''region''} \<and>
     p_tags p ''cpu'' = Some ''cpu-total'' \<and>
     p_tags p ''host'' = Some (Hostname w) \<and>
     p_tags p ''region'' = Some (regions ! rand_Intn e i (length regions)) \<and>
     dom (p_fields p) = {''idle'', ''busy''} \<and>
     p_fields p ''idle'' = Some (rand_Float64 e i * max_idle) \<and>
     p_fields p ''busy'' = Some (max_idle - rand_Float64 e i * max_idle) \<and>
     p_time p = time_Now e i"

subsection \<open>The moves of the goroutines\<close>

text \<open>
  The events that the goroutines make by themselves, that is all but the signals of the
  operating system; \<open>event_of e\<close> gives each the answers \<open>e\<close> of the library.
\<close>

datatype move = MvMain | MvDeadline | MvListener | MvWork nat | MvDone nat

fun event_of :: "env \<Rightarrow> move \<Rightarrow> event" where
  "event_of e MvMain = EvMain e"
| "event_of e MvDeadline = EvDeadline"
| "event_of e MvListener = EvListener"
| "event_of e (MvWork j) = EvWork j e"
| "event_of e (MvDone j) = EvDone j"

text \<open>
  A library that constructs every client, and a \<^verbatim>\<open>math/rand\<close> whose \<^verbatim>\<open>Intn(n)\<close> stays
  below \<open>n\<close>, so that \<^verbatim>\<open>regions[rand.Intn(len(regions))]\<close> does not panic. Whether
  a batch, a point, a write or a close fails is left open.
\<close>

definition library_ok :: "env \<Rightarrow> bool" where
  "library_ok e \<longleftrightarrow>
     (\<forall>conf. http_client_error e conf = None) \<and>
     (\<forall>i. rand_Intn e i (length regions) < length regions)"

text \<open>
  No construction has failed so far: every iteration of the loop of line 200 that is
  over has started a worker.
\<close>

definition none_failed :: "sys \<Rightarrow> bool" where
  "none_failed s \<longleftrightarrow> length (workers s) = spawned (main s) (num_hosts (flags s))"

text \<open>
  A bound on the steps from a place of a worker to its return once it finds a value in
  \<^verbatim>\<open>cancel\<close>, and from a place of \<open>main\<close> to its return, the five steps of each worker
  still to be constructed included; \<open>left\<close> adds them up over a state.
\<close>

fun work_left :: "work_pc \<Rightarrow> nat" where
  "work_left WWrite = 5"
| "work_left WSleep = 4"
| "work_left WDelay = 4"
| "work_left WPoll = 3"
| "work_left WClose = 2"
| "work_left WSendDone = 1"
| "work_left WReturned = 0"

fun main_left :: "main_pc \<Rightarrow> nat \<Rightarrow> nat" where
  "main_left (MSpawn i) nw = 5 * (nw - i) + nw + 4"
| "main_left MSelect nw = nw + 3"
| "main_left (MCancel i) nw = (nw - i) + 2"
| "main_left (MAwait i) nw = 1"
| "main_left MReturned nw = 0"

definition left :: "sys \<Rightarrow> nat" where
  "left s = main_left (main s) (num_hosts (flags s)) +
     sum_list (map (\<lambda>x. work_left (snd x)) (workers s))"

subsection \<open>Environments and flags for the examples\<close>

definition env_ok :: env where
  "env_ok = \<lparr>http_client_error = (\<lambda>conf. None), batch_points_error = (\<lambda>conf. None),
     point_error = (\<lambda>nm tgs flds. None), write_error = (\<lambda>c bp. None),
     close_error = (\<lambda>c. None), rand_Intn = (\<lambda>i n. i mod n),
     rand_Float64 = (\<lambda>i. 1 / 4), time_Now = (\<lambda>i. int i)\<rparr>"

definition env_failing :: env where
  "env_failing = env_ok\<lparr>
     http_client_error := (\<lambda>conf. Some (Error ''Unsupported protocol scheme'')),
     write_error := (\<lambda>c bp. Some (Error ''connection refused'')),
     close_error := (\<lambda>c. Some (Error ''close failed''))\<rparr>"

definition flags1 :: config where
  "flags1 = \<lparr>num_hosts = 1, num_points = 2, interval = 13 / 10, timeout = 666 / 10,
     host_prefix = ''hetsfan'', db = ''custom'', url = ''http://localhost:8086'',
     write_timeout = 5\<rparr>"

text \<open>
  Schedules for one worker (\<open>flags1\<close>). \<open>life1\<close> follows the construction of the
  worker: two rounds of the loop with a failing write, the deadline, a failing close, the
  completion and the return. \<open>at_poll\<close> stops with the worker at the head of its loop
  and the cancellation sent. In \<open>both_fire\<close> the signal comes
  first and the deadline after it; \<open>before_deadline\<close> is its part up to the deadline. In
  \<open>blocked_run\<close> the construction of the only worker fails.
\<close>

definition life1 :: "event list" where
  "life1 = [EvMain env_ok, EvWork 0 env_ok, EvWork 0 env_ok, EvWork 0 env_failing, EvWork 0 env_ok,
     EvWork 0 env_ok, EvWork 0 env_failing, EvWork 0 env_ok,
     EvDeadline, EvMain env_ok, EvMain env_ok, EvWork 0 env_ok, EvWork 0 env_failing, EvDone 0,
     EvMain env_ok]"

definition at_poll :: "event list" where
  "at_poll = [EvMain env_ok, EvMain env_ok, EvWork 0 env_ok, EvDeadline, EvMain env_ok, EvMain env_ok]"

definition before_deadline :: "event list" where
  "before_deadline = [EvMain env_ok, EvMain env_ok, EvWork 0 env_ok, EvSignal SIGINT, EvListener, EvListener,
     EvWork 0 env_ok, EvWork 0 env_ok]"

definition both_fire :: "event list" where
  "both_fire = before_deadline @ [EvDeadline, EvMain env_ok, EvMain env_ok, EvDone 0, EvMain env_ok]"

definition blocked_run :: "event list" where
  "blocked_run = [EvMain env_failing, EvMain env_ok, EvDeadline, EvMain env_ok, EvMain env_ok]"


text \<open>
  Schedules for \<open>flags1\<close> that end after the cancellation was sent, with the worker in
  its first sleep, inside \<^verbatim>\<open>Write\<close> and in the sleep of its loop; and the worker that
  \<^verbatim>\<open>NewWorker\<close> makes for \<open>flags1\<close>.
\<close>

definition in_delay :: "event list" where
  "in_delay = [EvMain env_ok, EvMain env_ok, EvDeadline, EvMain env_ok, EvMain env_ok]"

definition in_write :: "event list" where
  "in_write = [EvMain env_ok, EvMain env_ok, EvWork 0 env_ok, EvWork 0 env_ok, EvDeadline,
     EvMain env_ok, EvMain env_ok]"

definition in_sleep :: "event list" where
  "in_sleep = [EvMain env_ok, EvMain env_ok, EvWork 0 env_ok, EvWork 0 env_ok, EvWork 0 env_ok,
     EvDeadline, EvMain env_ok, EvMain env_ok]"

definition worker1 :: Worker where
  "worker1 = \<lparr>Client = HTTPClient \<lparr>Addr = ''http://localhost:8086'', Timeout = 5 * Second\<rparr>,
     Hostname = ''hetsfan-00000'', DB = ''custom'', NumPoints = 2, Interval = 1300 * Millisecond,
     Done = done_chan, Cancel = cancel_chan\<rparr>"


section \<open>Properties\<close>

subsection \<open>The steps, case by case\<close>

lemmas run_defs = step_def main_step_def deadline_step_def signal_step_def listener_step_def
  work_step_def done_step_def send_cancel_def NewWorker_def NewHTTPClient_def boot_def
  env_ok_def env_failing_def flags1_def maxAlloc_def hchanSize_def

lemma filter_update_count:
  "j < length xs \<Longrightarrow>
   length (filter P (xs[j := y])) + (if P (xs ! j) then 1 else 0) =
   length (filter P xs) + (if P y then 1 else 0)"
proof (induction xs arbitrary: j)
  case Nil
  then show ?case by simp
next
  case (Cons x xs)
  then show ?case by (cases j) auto
qed

text \<open>What one step of each kind does to the state.\<close>

lemma main_step_cases:
  assumes "main_step e s = Some s'"
  obtains
    (spawn_failed) i lg where "main s = MSpawn i" "i < num_hosts (flags s)"
      "s' = s\<lparr>main := MSpawn (Suc i), logs := logs s @ lg\<rparr>"
  | (spawn) i lg w where "main s = MSpawn i" "i < num_hosts (flags s)"
      "s' = s\<lparr>main := MSpawn (Suc i), workers := workers s @ [(w, WDelay)], logs := logs s @ lg\<rparr>"
  | (arm) i where "main s = MSpawn i" "\<not> i < num_hosts (flags s)"
      "s' = s\<lparr>main := MSelect, timer := Some (deadline (timeout (flags s)))\<rparr>"
  | (send) i where "main s = MCancel i" "i < num_hosts (flags s)" "cancel s < num_hosts (flags s)"
      "s' = s\<lparr>cancel := Suc (cancel s), main := MCancel (Suc i)\<rparr>"
  | (sent) i where "main s = MCancel i" "\<not> i < num_hosts (flags s)" "s' = s\<lparr>main := MAwait 0\<rparr>"
  | (return) i where "main s = MAwait i" "\<not> i < num_hosts (flags s)" "s' = s\<lparr>main := MReturned\<rparr>"
proof (cases "main s")
  case (MSpawn i)
  with assms show ?thesis
    by (auto simp: main_step_def Let_def split: if_splits prod.splits option.splits
             intro: spawn_failed spawn arm)
next
  case MSelect
  with assms show ?thesis by (simp add: main_step_def)
next
  case (MCancel i)
  with assms show ?thesis
    by (auto simp: main_step_def Let_def send_cancel_def split: if_splits intro: send sent)
next
  case (MAwait i)
  with assms show ?thesis
    by (auto simp: main_step_def Let_def split: if_splits intro: return)
next
  case MReturned
  with assms show ?thesis by (simp add: main_step_def)
qed

lemma deadline_step_cases:
  assumes "deadline_step s = Some s'"
  obtains "main s = MSelect" "s' = s\<lparr>main := MCancel 0\<rparr>"
  using assms by (cases "main s") (auto simp: deadline_step_def)

lemma signal_step_cases:
  assumes "signal_step sg s = Some s'"
  obtains
    (first) lg where "listener s = SWait" "s' = s\<lparr>listener := SCancel 0, logs := logs s @ lg\<rparr>"
  | (later) "listener s \<noteq> SWait" "s' = s"
  using assms by (cases "listener s") (auto simp: signal_step_def)

lemma listener_step_cases:
  assumes "listener_step s = Some s'"
  obtains
    (send) i where "listener s = SCancel i" "i < num_hosts (flags s)"
      "cancel s < num_hosts (flags s)"
      "s' = s\<lparr>cancel := Suc (cancel s), listener := SCancel (Suc i)\<rparr>"
  | (exit) i where "listener s = SCancel i" "\<not> i < num_hosts (flags s)"
      "s' = s\<lparr>listener := SExit\<rparr>"
  using assms
  by (cases "listener s") (auto simp: listener_step_def send_cancel_def split: if_splits)

lemma Work_cases:
  assumes "Work e ready w pc = Some (pc', took, lg)"
  obtains
    (take) "pc = WPoll" "ready" "pc' = WClose" "took"
  | (go_on) "\<not> took" "stopping pc' = stopping pc" "pc' \<noteq> WReturned" "pc \<noteq> WReturned"
  using assms by (cases pc) (auto split: if_splits option.splits prod.splits)

lemma work_step_cases:
  assumes "work_step j e s = Some s'"
  obtains
    (take) w lg where "j < length (workers s)" "workers s ! j = (w, WPoll)" "0 < cancel s"
      "s' = s\<lparr>workers := (workers s)[j := (w, WClose)], cancel := cancel s - 1,
               logs := logs s @ lg\<rparr>"
  | (go_on) w pc pc' lg where "j < length (workers s)" "workers s ! j = (w, pc)"
      "stopping pc' = stopping pc" "pc' \<noteq> WReturned" "pc \<noteq> WReturned"
      "s' = s\<lparr>workers := (workers s)[j := (w, pc')], cancel := cancel s,
               logs := logs s @ lg\<rparr>"
proof -
  from assms have j: "j < length (workers s)"
    by (simp add: work_step_def split: if_splits)
  obtain w pc where wj: "workers s ! j = (w, pc)"
    by (cases "workers s ! j")
  from assms j wj obtain pc' took lg where
    W: "Work e (0 < cancel s) w pc = Some (pc', took, lg)" and
    s': "s' = s\<lparr>workers := (workers s)[j := (w, pc')],
               cancel := (if took then cancel s - 1 else cancel s), logs := logs s @ lg\<rparr>"
    by (auto simp: work_step_def split: option.splits)
  from W show ?thesis
  proof (cases rule: Work_cases)
    case take
    with j wj s' show ?thesis by (intro that(1)[of w lg]) auto
  next
    case go_on
    with j wj s' show ?thesis by (intro that(2)[of w pc pc' lg]) auto
  qed
qed

lemma done_step_cases:
  assumes "done_step j s = Some s'"
  obtains i where "main s = MAwait i" "i < num_hosts (flags s)" "j < length (workers s)"
    "snd (workers s ! j) = WSendDone"
    "s' = s\<lparr>main := MAwait (Suc i),
             workers := (workers s)[j := (fst (workers s ! j), WReturned)],
             received := received s @ [j]\<rparr>"
  using assms by (cases "main s") (auto simp: done_step_def split: if_splits)

lemma step_cases [consumes 1, case_names spawn_failed spawn arm fire send sent return
    signal signal_late listen_send listen_exit take go_on meet]:
  assumes "step ev s = Some s'"
  obtains
    i lg where "main s = MSpawn i" "i < num_hosts (flags s)"
      "s' = s\<lparr>main := MSpawn (Suc i), logs := logs s @ lg\<rparr>"
  | i lg w where "main s = MSpawn i" "i < num_hosts (flags s)"
      "s' = s\<lparr>main := MSpawn (Suc i), workers := workers s @ [(w, WDelay)], logs := logs s @ lg\<rparr>"
  | i where "main s = MSpawn i" "\<not> i < num_hosts (flags s)"
      "s' = s\<lparr>main := MSelect, timer := Some (deadline (timeout (flags s)))\<rparr>"
  | "main s = MSelect" "s' = s\<lparr>main := MCancel 0\<rparr>"
  | i where "main s = MCancel i" "i < num_hosts (flags s)" "cancel s < num_hosts (flags s)"
      "s' = s\<lparr>cancel := Suc (cancel s), main := MCancel (Suc i)\<rparr>"
  | i where "main s = MCancel i" "\<not> i < num_hosts (flags s)" "s' = s\<lparr>main := MAwait 0\<rparr>"
  | i where "main s = MAwait i" "\<not> i < num_hosts (flags s)" "s' = s\<lparr>main := MReturned\<rparr>"
  | lg where "main s \<noteq> MReturned" "listener s = SWait"
      "s' = s\<lparr>listener := SCancel 0, logs := logs s @ lg\<rparr>"
  | "main s \<noteq> MReturned" "listener s \<noteq> SWait" "s' = s"
  | i where "main s \<noteq> MReturned" "listener s = SCancel i" "i < num_hosts (flags s)"
      "cancel s < num_hosts (flags s)"
      "s' = s\<lparr>cancel := Suc (cancel s), listener := SCancel (Suc i)\<rparr>"
  | i where "main s \<noteq> MReturned" "listener s = SCancel i" "\<not> i < num_hosts (flags s)"
      "s' = s\<lparr>listener := SExit\<rparr>"
  | j w lg where "main s \<noteq> MReturned" "j < length (workers s)" "workers s ! j = (w, WPoll)"
      "0 < cancel s"
      "s' = s\<lparr>workers := (workers s)[j := (w, WClose)], cancel := cancel s - 1,
               logs := logs s @ lg\<rparr>"
  | j w pc pc' lg where "main s \<noteq> MReturned" "j < length (workers s)"
      "workers s ! j = (w, pc)" "stopping pc' = stopping pc" "pc' \<noteq> WReturned" "pc \<noteq> WReturned"
      "s' = s\<lparr>workers := (workers s)[j := (w, pc')], cancel := cancel s,
               logs := logs s @ lg\<rparr>"
  | j i where "main s = MAwait i" "i < num_hosts (flags s)" "j < length (workers s)"
      "snd (workers s ! j) = WSendDone"
      "s' = s\<lparr>main := MAwait (Suc i),
             workers := (workers s)[j := (fst (workers s ! j), WReturned)],
             received := received s @ [j]\<rparr>"
proof -
  from assms have live: "main s \<noteq> MReturned"
    by (auto simp: step_def)
  show ?thesis
  proof (cases ev)
    case (EvMain e)
    with assms have "main_step e s = Some s'" by (simp add: step_def split: if_splits)
    then show ?thesis
    proof (cases rule: main_step_cases)
      case (spawn_failed i lg)
      then show ?thesis by (rule that(1))
    next
      case (spawn i lg w)
      then show ?thesis by (rule that(2))
    next
      case (arm i)
      then show ?thesis by (rule that(3))
    next
      case (send i)
      then show ?thesis by (rule that(5))
    next
      case (sent i)
      then show ?thesis by (rule that(6))
    next
      case (return i)
      then show ?thesis by (rule that(7))
    qed
  next
    case EvDeadline
    with assms have "deadline_step s = Some s'" by (simp add: step_def split: if_splits)
    then show ?thesis by (cases rule: deadline_step_cases) (rule that(4))
  next
    case (EvSignal sg)
    with assms have "signal_step sg s = Some s'" by (simp add: step_def split: if_splits)
    then show ?thesis
    proof (cases rule: signal_step_cases)
      case (first lg)
      with live show ?thesis by (rule that(8))
    next
      case later
      with live show ?thesis by (rule that(9))
    qed
  next
    case EvListener
    with assms have "listener_step s = Some s'" by (simp add: step_def split: if_splits)
    then show ?thesis
    proof (cases rule: listener_step_cases)
      case (send i)
      with live show ?thesis by (rule that(10))
    next
      case (exit i)
      with live show ?thesis by (rule that(11))
    qed
  next
    case (EvWork j e)
    with assms have "work_step j e s = Some s'" by (simp add: step_def split: if_splits)
    then show ?thesis
    proof (cases rule: work_step_cases)
      case (take w lg)
      with live show ?thesis by (rule that(12))
    next
      case (go_on w pc pc' lg)
      with live show ?thesis by (rule that(13))
    qed
  next
    case (EvDone j)
    with assms have "done_step j s = Some s'" by (simp add: step_def split: if_splits)
    then show ?thesis by (cases rule: done_step_cases) (rule that(14))
  qed
qed

lemma flags_step:
  assumes "step ev s = Some s'"
  shows "flags s' = flags s"
  using assms by (cases rule: step_cases) simp_all

lemma inv_spawn_step:
  assumes "step ev s = Some s'" "inv_spawn s"
  shows "inv_spawn s'"
  using assms by (cases rule: step_cases) (auto simp: inv_spawn_def)

lemma cancel_taken_update:
  assumes "j < length (workers s)" "stopping pc' = stopping (snd (workers s ! j))"
  shows "length (filter (\<lambda>x. stopping (snd x)) ((workers s)[j := (w, pc')])) = cancel_taken s"
  using filter_update_count [of j "workers s" "\<lambda>x. stopping (snd x)" "(w, pc')"] assms
  by (simp add: cancel_taken_def)

lemma cancel_taken_take:
  assumes "j < length (workers s)" "workers s ! j = (w, WPoll)"
  shows "length (filter (\<lambda>x. stopping (snd x)) ((workers s)[j := (w', WClose)])) =
         Suc (cancel_taken s)"
  using filter_update_count [of j "workers s" "\<lambda>x. stopping (snd x)" "(w', WClose)"] assms
  by (simp add: cancel_taken_def)

lemma inv_cancel_step:
  assumes "step ev s = Some s'" "inv_cancel s"
  shows "inv_cancel s'"
  using assms
proof (cases rule: step_cases)
  case (take j w lg)
  with assms(2) cancel_taken_take [of j s w w] show ?thesis
    by (simp add: inv_cancel_def cancel_sent_def cancel_taken_def)
next
  case (go_on j w pc pc' lg)
  with assms(2) cancel_taken_update [of j s pc' w] show ?thesis
    by (simp add: inv_cancel_def cancel_sent_def cancel_taken_def)
next
  case (meet j i)
  with assms(2) cancel_taken_update [of j s WReturned "fst (workers s ! j)"] show ?thesis
    by (simp add: inv_cancel_def cancel_sent_def cancel_taken_def)
qed (auto simp: inv_cancel_def cancel_sent_def cancel_taken_def)

lemma returned_workers_update:
  assumes "j < length (workers s)"
  shows "{k. k < length (workers s) \<and> snd ((workers s)[j := (w, pc')] ! k) = WReturned} =
         (if pc' = WReturned then insert j (returned_workers s) else returned_workers s - {j})"
  using assms by (auto simp: returned_workers_def nth_list_update)

lemma returned_workers_same:
  assumes "j < length (workers s)" "snd (workers s ! j) \<noteq> WReturned" "pc' \<noteq> WReturned"
  shows "{k. k < length (workers s) \<and> snd ((workers s)[j := (w, pc')] ! k) = WReturned} =
         returned_workers s"
  using assms by (auto simp: returned_workers_def nth_list_update)

lemma inv_done_step:
  assumes "step ev s = Some s'" "inv_done s"
  shows "inv_done s'"
  using assms
proof (cases rule: step_cases)
  case (spawn i lg w)
  have "returned_workers s' = returned_workers s"
    unfolding returned_workers_def spawn by (auto simp: nth_append)
  with spawn assms(2) show ?thesis
    by (auto simp: inv_done_def)
next
  case (take j w lg)
  from take returned_workers_same [of j s WClose w]
  have "returned_workers s' = returned_workers s"
    by (simp add: returned_workers_def)
  with take assms(2) show ?thesis
    by (simp add: inv_done_def)
next
  case (go_on j w pc pc' lg)
  from go_on returned_workers_same [of j s pc' w]
  have "returned_workers s' = returned_workers s"
    by (simp add: returned_workers_def)
  with go_on assms(2) show ?thesis
    by (simp add: inv_done_def)
next
  case (meet j i)
  from meet returned_workers_update [of j s "fst (workers s ! j)" WReturned]
  have r: "returned_workers s' = insert j (returned_workers s)"
    by (simp add: returned_workers_def)
  from meet have "j \<notin> returned_workers s"
    by (simp add: returned_workers_def)
  with r meet assms(2) show ?thesis
    by (simp add: inv_done_def)
qed (clarsimp simp: inv_done_def returned_workers_def)+

lemma inv_boot: "inv (boot c)"
  by (simp add: inv_def inv_spawn_def inv_cancel_def inv_done_def boot_def cancel_sent_def
        cancel_taken_def returned_workers_def)

lemma inv_step: "step ev s = Some s' \<Longrightarrow> inv s \<Longrightarrow> inv s'"
  by (simp add: inv_def inv_spawn_step inv_cancel_step inv_done_step)

lemma inv_exec: "exec evs s = Some s' \<Longrightarrow> inv s \<Longrightarrow> inv s'"
proof (induction evs arbitrary: s)
  case Nil
  then show ?case by simp
next
  case (Cons ev evs)
  from Cons.prems(1) obtain t where "step ev s = Some t" "exec evs t = Some s'"
    by (auto split: option.splits)
  with Cons.IH [of t] Cons.prems(2) show ?case
    by (simp add: inv_step)
qed

lemma flags_exec: "exec evs s = Some s' \<Longrightarrow> flags s' = flags s"
proof (induction evs arbitrary: s)
  case Nil
  then show ?case by simp
next
  case (Cons ev evs)
  from Cons.prems obtain t where "step ev s = Some t" "exec evs t = Some s'"
    by (auto split: option.splits)
  with Cons.IH [of t] flags_step [of ev s t] show ?case
    by simp
qed

lemma exec_append:
  "exec (xs @ ys) s = (case exec xs s of None \<Rightarrow> None | Some t \<Rightarrow> exec ys t)"
  by (induction xs arbitrary: s) (simp_all split: option.splits)

text \<open>What the invariant says of a run that has returned.\<close>

lemma returned_all:
  assumes "inv s" "main s = MReturned"
  shows "length (workers s) = num_hosts (flags s)"
    and "returned_workers s = {..<num_hosts (flags s)}"
    and "length (received s) = num_hosts (flags s)"
proof -
  let ?n = "num_hosts (flags s)"
  from assms have len: "length (workers s) \<le> ?n"
    by (simp add: inv_def inv_spawn_def)
  from assms have d: "distinct (received s)" and r: "set (received s) = returned_workers s"
    and l: "length (received s) = ?n"
    by (simp_all add: inv_def inv_done_def)
  show "length (received s) = ?n" by (rule l)
  have sub: "returned_workers s \<subseteq> {..<length (workers s)}"
    by (auto simp: returned_workers_def)
  from d r l have c: "card (returned_workers s) = ?n"
    using distinct_card [of "received s"] by simp
  from sub have "card (returned_workers s) \<le> length (workers s)"
    using card_mono [of "{..<length (workers s)}" "returned_workers s"] by simp
  with c len show n: "length (workers s) = ?n" by simp
  from sub c n show "returned_workers s = {..<?n}"
    using card_subset_eq [of "{..<?n}" "returned_workers s"] by simp
qed

subsection \<open>Consequences of the invariant\<close>

lemmas write_defs = Write_def NewBatchPoints_def make_point_def NewPoint_def regions_def
  AddPoint_def

lemma worker_frame_step:
  assumes "step ev s = Some s'" "j < length (workers s)"
  shows "j < length (workers s') \<and> fst (workers s' ! j) = fst (workers s ! j)"
  using assms by (cases rule: step_cases) (auto simp: nth_append nth_list_update)

lemma reached_inv:
  assumes "startStress c evs = Inr (Some s)"
  shows "inv s" and "flags s = c"
proof -
  from assms have e: "exec evs (boot c) = Some s"
    by (simp add: startStress_def split: if_splits)
  from inv_exec [OF e inv_boot] show "inv s" .
  from flags_exec [OF e] show "flags s = c" by (simp add: boot_def)
qed

text \<open>A write error adds log entries; the worker goes on to its sleep.\<close>

lemma write_error_step:
  assumes "main s \<noteq> MReturned" "k < length (workers s)" "workers s ! k = (w, WWrite)"
    and "Write e w = Some (lg, Some err)"
  shows "step (EvWork k e) s =
    Some (s\<lparr>workers := (workers s)[k := (w, WSleep)],
            logs := logs s @ lg @
              [(ErrorLevel, [(''worker'', FString (Hostname w)), (''error'', FError err)],
                ''Client write''),
               (DebugLevel, [(''worker'', FString (Hostname w)),
                 (''interval'', FDuration (Interval w))], ''Sleeping...'')]\<rparr>)"
  using assms by (simp add: step_def work_step_def)

lemma cancel_taken_le: "cancel_taken s \<le> length (workers s)"
  by (simp add: cancel_taken_def)

lemma workers_bound_step:
  assumes "step ev s = Some s'"
  shows "length (workers s') + unspawned s' \<le> length (workers s) + unspawned s"
  using assms by (cases rule: step_cases) (auto simp: unspawned_def)

lemma workers_bound_exec:
  "exec evs s = Some s' \<Longrightarrow>
   length (workers s') + unspawned s' \<le> length (workers s) + unspawned s"
proof (induction evs arbitrary: s)
  case Nil
  then show ?case by simp
next
  case (Cons ev evs)
  from Cons.prems obtain t where t: "step ev s = Some t" "exec evs t = Some s'"
    by (auto split: option.splits)
  from Cons.IH [OF t(2)] workers_bound_step [OF t(1)] show ?case
    by simp
qed

subsection \<open>A live worker finds a value\<close>

lemma value_ready:
  assumes i: "inv s"
    and sent: "main_sent (main s) (num_hosts (flags s)) = num_hosts (flags s) \<or>
      sig_sent (listener s) (num_hosts (flags s)) = num_hosts (flags s)"
    and j: "j < length (workers s)" "\<not> stopping (snd (workers s ! j))"
  shows "0 < cancel s" and "main s \<noteq> MReturned"
proof -
  from j have "workers s ! j \<in> set (workers s)" by simp
  with j(2) have "cancel_taken s < length (workers s)"
    unfolding cancel_taken_def by (intro length_filter_less) auto
  moreover from i have "length (workers s) \<le> num_hosts (flags s)"
    by (simp add: inv_def inv_spawn_def)
  moreover from sent have "num_hosts (flags s) \<le> cancel_sent s"
    by (auto simp: cancel_sent_def)
  moreover from i have "cancel_sent s = cancel s + cancel_taken s"
    by (simp add: inv_def inv_cancel_def)
  ultimately show "0 < cancel s" by simp
  show "main s \<noteq> MReturned"
  proof
    assume m: "main s = MReturned"
    from returned_all(1,2) [OF i m] j(1) have "j \<in> returned_workers s"
      by simp
    with j(2) show False
      by (simp add: returned_workers_def)
  qed
qed

text \<open>A broadcast that is complete stays complete.\<close>

lemma broadcast_stays_step:
  assumes "step ev s = Some s'"
    and "main_sent (main s) (num_hosts (flags s)) = num_hosts (flags s) \<or>
      sig_sent (listener s) (num_hosts (flags s)) = num_hosts (flags s)"
  shows "main_sent (main s') (num_hosts (flags s')) = num_hosts (flags s') \<or>
      sig_sent (listener s') (num_hosts (flags s')) = num_hosts (flags s')"
  using assms by (cases rule: step_cases) auto

lemma broadcast_stays:
  assumes "exec evs s = Some s'"
    and "main_sent (main s) (num_hosts (flags s)) = num_hosts (flags s) \<or>
      sig_sent (listener s) (num_hosts (flags s)) = num_hosts (flags s)"
  shows "main_sent (main s') (num_hosts (flags s')) = num_hosts (flags s') \<or>
      sig_sent (listener s') (num_hosts (flags s')) = num_hosts (flags s')"
  using assms
proof (induction evs arbitrary: s)
  case Nil
  then show ?case by simp
next
  case (Cons ev evs)
  from Cons.prems(1) obtain t where t: "step ev s = Some t" "exec evs t = Some s'"
    by (auto split: option.splits)
  from Cons.IH [OF t(2) broadcast_stays_step [OF t(1) Cons.prems(2)]] show ?case .
qed

subsection \<open>The batch of \<^verbatim>\<open>Write\<close>\<close>

lemma make_point_ok:
  assumes "\<forall>i. rand_Intn e i (length regions) < length regions"
    and "\<forall>nm tgs flds. point_error e nm tgs flds = None"
  shows "\<exists>p. make_point e w i = Some (Inr p) \<and> generated e w i p"
  using assms by (auto simp: make_point_def NewPoint_def generated_def Let_def)

lemma Write_loop_ok:
  assumes "\<forall>i. rand_Intn e i (length regions) < length regions"
    and "\<forall>nm tgs flds. point_error e nm tgs flds = None"
  shows "\<exists>ps. Write_loop e w i bp = Some (Inr (bp\<lparr>points := points bp @ ps\<rparr>)) \<and>
    length ps = nat (NumPoints w) - i \<and> (\<forall>k < length ps. generated e w (i + k) (ps ! k))"
  using assms
proof (induction e w i bp rule: Write_loop.induct)
  case (1 e w i bp)
  show ?case
  proof (cases "int i < NumPoints w")
    case False
    then have "Write_loop e w i bp = Some (Inr bp)" by simp
    with False show ?thesis by (intro exI [of _ "[]"]) simp
  next
    case True
    from make_point_ok [OF "1.prems", of w i] obtain p where
      p: "make_point e w i = Some (Inr p)" "generated e w i p"
      by blast
    from "1.IH" [OF True p(1) refl] "1.prems" obtain ps where
      ps: "Write_loop e w (Suc i) (AddPoint bp p) =
             Some (Inr ((AddPoint bp p)\<lparr>points := points (AddPoint bp p) @ ps\<rparr>))"
        "length ps = nat (NumPoints w) - Suc i"
        "\<forall>k < length ps. generated e w (Suc i + k) (ps ! k)"
      by blast
    from True p(1) ps(1) have
      "Write_loop e w i bp = Some (Inr (bp\<lparr>points := points bp @ p # ps\<rparr>))"
      by (simp add: AddPoint_def)
    moreover from True ps(2) have "length (p # ps) = nat (NumPoints w) - i"
      by simp
    moreover have "\<forall>k < length (p # ps). generated e w (i + k) ((p # ps) ! k)"
    proof (intro allI impI)
      fix k assume "k < length (p # ps)"
      with p(2) ps(3) show "generated e w (i + k) ((p # ps) ! k)"
        by (cases k) simp_all
    qed
    ultimately show ?thesis by blast
  qed
qed

subsection \<open>Runs and fixtures\<close>

lemma exec_append_Some:
  "exec xs s = Some t \<Longrightarrow> exec ys t = Some u \<Longrightarrow> exec (xs @ ys) s = Some u"
  by (simp add: exec_append)

lemma all_returned:
  assumes "inv s" "main s = MReturned"
  shows "map snd (workers s) = replicate (num_hosts (flags s)) WReturned"
proof (rule nth_equalityI)
  from returned_all(1) [OF assms]
  show l: "length (map snd (workers s)) = length (replicate (num_hosts (flags s)) WReturned)"
    by simp
  fix i assume "i < length (map snd (workers s))"
  with l have i: "i < num_hosts (flags s)" by simp
  with returned_all(2) [OF assms] have "i \<in> returned_workers s" by simp
  with i show "map snd (workers s) ! i = replicate (num_hosts (flags s)) WReturned ! i"
    by (simp add: returned_workers_def)
qed

lemma NewWorker_flags1:
  "NewWorker env_ok (hostname (host_prefix flags1) 0) (db flags1) (url flags1)
     (num_points flags1) (interval flags1) (write_timeout flags1) cancel_chan done_chan =
   ([], Some worker1)"
  by (simp add: NewWorker_def NewHTTPClient_def env_ok_def flags1_def worker1_def
        milliseconds_def Duration_of_float64_def trunc_float64_def Millisecond_def Second_def
        hostname_def decimal.simps numeral_eq_Suc)

lemma one_host: "num_hosts flags1 = 1"
  by (simp add: flags1_def)

subsection \<open>The way to the return\<close>

lemma sum_list_map_update:
  "j < length xs \<Longrightarrow>
   sum_list (map f (xs[j := y])) + f (xs ! j) = sum_list (map f xs) + (f y :: nat)"
proof (induction xs arbitrary: j)
  case Nil
  then show ?case by simp
next
  case (Cons x xs)
  then show ?case by (cases j) auto
qed

lemma Write_loop_returns:
  assumes "\<forall>i. rand_Intn e i (length regions) < length regions"
  shows "Write_loop e w i bp \<noteq> None"
  using assms
proof (induction e w i bp rule: Write_loop.induct)
  case (1 e w i bp)
  show ?case
  proof (cases "int i < NumPoints w")
    case False
    then show ?thesis by simp
  next
    case True
    from "1.prems" obtain r where r: "make_point e w i = Some r"
      by (auto simp: make_point_def Let_def)
    show ?thesis
    proof (cases r)
      case (Inl err)
      with True r show ?thesis by simp
    next
      case (Inr p)
      from "1.IH" [OF True r Inr "1.prems"] True r Inr show ?thesis by simp
    qed
  qed
qed

lemma Write_returns:
  assumes "library_ok e"
  shows "Write e w \<noteq> None"
proof -
  from assms have *: "\<forall>i. rand_Intn e i (length regions) < length regions"
    by (simp add: library_ok_def)
  show ?thesis
  proof (cases "NewBatchPoints e \<lparr>Database = DB w, Precision = ''ms''\<rparr>")
    case (Inl err)
    then show ?thesis unfolding Write_def by simp
  next
    case (Inr bp)
    from Write_loop_returns [OF *, of w 0 bp] obtain r where
      r: "Write_loop e w 0 bp = Some r" by blast
    show ?thesis
    proof (cases r)
      case (Inl err)
      with Inr r show ?thesis unfolding Write_def by (simp del: Write_loop.simps)
    next
      case (Inr bp')
      with \<open>NewBatchPoints e \<lparr>Database = DB w, Precision = ''ms''\<rparr> = Inr bp\<close> r
      show ?thesis unfolding Write_def by (simp del: Write_loop.simps)
    qed
  qed
qed

text \<open>One step of a worker that brings it nearer to its return.\<close>

lemma Work_nearer:
  assumes "Write e w \<noteq> None" and "pc = WClose \<or> (\<not> stopping pc \<and> ready)"
  obtains pc' took lg where "Work e ready w pc = Some (pc', took, lg)"
    "work_left pc' < work_left pc"
proof (cases pc)
  case WDelay
  then show ?thesis by (intro that [of WPoll False "[]"]) simp_all
next
  case WPoll
  with assms(2) have "ready" by simp
  with WPoll show ?thesis
    by (intro that [of WClose True
          "[(DebugLevel, [(''worker'', FString (Hostname w))], ''Quitting...'')]"]) simp_all
next
  case WWrite
  from assms(1) obtain lg err where "Write e w = Some (lg, err)"
    by (cases "Write e w") auto
  with WWrite show ?thesis
    by (intro that [of WSleep False "lg @
            (case err of
               Some x \<Rightarrow>
                 [(ErrorLevel, [(''worker'', FString (Hostname w)), (''error'', FError x)],
                   ''Client write'')]
             | None \<Rightarrow> []) @
            [(DebugLevel, [(''worker'', FString (Hostname w)), (''interval'', FDuration (Interval w))],
              ''Sleeping...'')]"]) simp_all
next
  case WSleep
  then show ?thesis by (intro that [of WPoll False "[]"]) simp_all
next
  case WClose
  then show ?thesis
    by (intro that [of WSendDone False "case close_error e (Client w) of
          Some x \<Rightarrow>
            [(ErrorLevel, [(''worker'', FString (Hostname w)), (''error'', FError x)],
              ''Client close'')]
        | None \<Rightarrow> []"]) simp_all
next
  case WSendDone
  with assms(2) show ?thesis by simp
next
  case WReturned
  with assms(2) show ?thesis by simp
qed


lemma worker_moves:
  assumes "main s \<noteq> MReturned" "j < length (workers s)" "library_ok e"
    and "snd (workers s ! j) = WClose \<or> (\<not> stopping (snd (workers s ! j)) \<and> 0 < cancel s)"
  shows "\<exists>t. step (EvWork j e) s = Some t \<and> left t < left s \<and>
    length (workers t) = length (workers s) \<and> main t = main s \<and> flags t = flags s"
proof -
  obtain w pc where wj: "workers s ! j = (w, pc)"
    by (cases "workers s ! j")
  with assms(4) have c: "pc = WClose \<or> (\<not> stopping pc \<and> 0 < cancel s)"
    by simp
  obtain pc' took lg where W: "Work e (0 < cancel s) w pc = Some (pc', took, lg)"
    "work_left pc' < work_left pc"
    by (rule Work_nearer [OF Write_returns [OF assms(3)] c])
  let ?t = "s\<lparr>workers := (workers s)[j := (w, pc')],
    cancel := (if took then cancel s - 1 else cancel s), logs := logs s @ lg\<rparr>"
  from assms(1,2) wj W(1) have st: "step (EvWork j e) s = Some ?t"
    by (simp add: step_def work_step_def)
  from sum_list_map_update [OF assms(2), of "\<lambda>x. work_left (snd x)" "(w, pc')"] wj W(2)
  have "left ?t < left s"
    by (simp add: left_def)
  with st show ?thesis
    by (intro exI [of _ ?t]) simp
qed

lemma live_worker:
  assumes "cancel_taken s < length (workers s)"
  obtains j where "j < length (workers s)" "\<not> stopping (snd (workers s ! j))"
proof -
  from assms have "filter (\<lambda>x. stopping (snd x)) (workers s) \<noteq> workers s"
    by (auto simp: cancel_taken_def)
  then obtain x where "x \<in> set (workers s)" "\<not> stopping (snd x)"
    by (auto simp: filter_id_conv)
  then show ?thesis
    by (auto simp: in_set_conv_nth intro: that)
qed

lemma unreturned_worker:
  assumes "inv s" "length (received s) < length (workers s)"
  obtains k where "k < length (workers s)" "snd (workers s ! k) \<noteq> WReturned"
proof -
  from assms(1) have d: "distinct (received s)" and r: "set (received s) = returned_workers s"
    by (simp_all add: inv_def inv_done_def)
  have "returned_workers s \<noteq> {..<length (workers s)}"
  proof
    assume "returned_workers s = {..<length (workers s)}"
    with d r have "length (received s) = length (workers s)"
      using distinct_card [of "received s"] by simp
    with assms(2) show False by simp
  qed
  then show ?thesis
    by (auto simp: returned_workers_def intro: that)
qed


text \<open>
  While every construction has succeeded and the library goes on answering, some
  goroutine can move and bring the run nearer to its return.
\<close>

lemma progress:
  assumes i: "inv s" and nf: "none_failed s" and ok: "library_ok e" and m: "main s \<noteq> MReturned"
  shows "\<exists>mv t. step (event_of e mv) s = Some t \<and> none_failed t \<and> left t < left s"
proof (cases "main s")
  case (MSpawn k)
  show ?thesis
  proof (cases "k < num_hosts (flags s)")
    case True
    from ok obtain lg w where
      "NewWorker e (hostname (host_prefix (flags s)) k) (db (flags s)) (url (flags s))
         (num_points (flags s)) (interval (flags s)) (write_timeout (flags s))
         cancel_chan done_chan = (lg, Some w)"
      by (simp add: library_ok_def NewWorker_def NewHTTPClient_def)
    with MSpawn True have
      "step (EvMain e) s = Some (s\<lparr>main := MSpawn (Suc k),
         workers := workers s @ [(w, WDelay)], logs := logs s @ lg\<rparr>)"
      by (simp add: step_def main_step_def)
    moreover from nf MSpawn have
      "none_failed (s\<lparr>main := MSpawn (Suc k), workers := workers s @ [(w, WDelay)],
         logs := logs s @ lg\<rparr>)"
      by (simp add: none_failed_def)
    moreover from MSpawn True have
      "left (s\<lparr>main := MSpawn (Suc k), workers := workers s @ [(w, WDelay)],
         logs := logs s @ lg\<rparr>) < left s"
      by (simp add: left_def)
    ultimately show ?thesis
      by (intro exI [of _ MvMain]) auto
  next
    case False
    with MSpawn have
      "step (EvMain e) s = Some (s\<lparr>main := MSelect, timer := Some (deadline (timeout (flags s)))\<rparr>)"
      by (simp add: step_def main_step_def)
    moreover from nf i MSpawn False have
      "none_failed (s\<lparr>main := MSelect, timer := Some (deadline (timeout (flags s)))\<rparr>)"
      by (simp add: none_failed_def inv_def inv_spawn_def)
    moreover from MSpawn False have
      "left (s\<lparr>main := MSelect, timer := Some (deadline (timeout (flags s)))\<rparr>) < left s"
      by (simp add: left_def)
    ultimately show ?thesis
      by (intro exI [of _ MvMain]) auto
  qed
next
  case MSelect
  then have "step EvDeadline s = Some (s\<lparr>main := MCancel 0\<rparr>)"
    by (simp add: step_def deadline_step_def)
  moreover from nf MSelect have "none_failed (s\<lparr>main := MCancel 0\<rparr>)"
    by (simp add: none_failed_def)
  moreover from MSelect have "left (s\<lparr>main := MCancel 0\<rparr>) < left s"
    by (simp add: left_def)
  ultimately show ?thesis
    by (intro exI [of _ MvDeadline]) auto
next
  case (MCancel k)
  show ?thesis
  proof (cases "k < num_hosts (flags s)")
    case False
    with MCancel have "step (EvMain e) s = Some (s\<lparr>main := MAwait 0\<rparr>)"
      by (simp add: step_def main_step_def)
    moreover from nf MCancel have "none_failed (s\<lparr>main := MAwait 0\<rparr>)"
      by (simp add: none_failed_def)
    moreover from MCancel False have "left (s\<lparr>main := MAwait 0\<rparr>) < left s"
      by (simp add: left_def)
    ultimately show ?thesis
      by (intro exI [of _ MvMain]) auto
  next
    case True
    show ?thesis
    proof (cases "cancel s < num_hosts (flags s)")
      case room: True
      with MCancel True have
        "step (EvMain e) s = Some (s\<lparr>cancel := Suc (cancel s), main := MCancel (Suc k)\<rparr>)"
        by (simp add: step_def main_step_def send_cancel_def)
      moreover from nf MCancel have
        "none_failed (s\<lparr>cancel := Suc (cancel s), main := MCancel (Suc k)\<rparr>)"
        by (simp add: none_failed_def)
      moreover from MCancel True have
        "left (s\<lparr>cancel := Suc (cancel s), main := MCancel (Suc k)\<rparr>) < left s"
        by (simp add: left_def)
      ultimately show ?thesis
        by (intro exI [of _ MvMain]) auto
    next
      case full: False
      from i MCancel have "cancel s + cancel_taken s \<le> k + num_hosts (flags s)"
        by (simp add: inv_def inv_cancel_def cancel_sent_def)
      with full True nf MCancel have "cancel_taken s < length (workers s)"
        by (simp add: none_failed_def)
      then obtain j where j: "j < length (workers s)" "\<not> stopping (snd (workers s ! j))"
        by (rule live_worker)
      from full True have "0 < cancel s" by simp
      with worker_moves [OF m j(1) ok] j(2) obtain t where
        t: "step (EvWork j e) s = Some t" "left t < left s"
          "length (workers t) = length (workers s)" "main t = main s" "flags t = flags s"
        by blast
      with nf have "none_failed t"
        by (simp add: none_failed_def)
      with t show ?thesis
        by (intro exI [of _ "MvWork j"] exI [of _ t]) simp
    qed
  qed
next
  case (MAwait k)
  show ?thesis
  proof (cases "k < num_hosts (flags s)")
    case False
    with MAwait have "step (EvMain e) s = Some (s\<lparr>main := MReturned\<rparr>)"
      by (simp add: step_def main_step_def)
    moreover from nf MAwait have "none_failed (s\<lparr>main := MReturned\<rparr>)"
      by (simp add: none_failed_def)
    moreover from MAwait have "left (s\<lparr>main := MReturned\<rparr>) < left s"
      by (simp add: left_def)
    ultimately show ?thesis
      by (intro exI [of _ MvMain]) auto
  next
    case True
    from i MAwait have "length (received s) = k"
      by (simp add: inv_def inv_done_def)
    with True nf MAwait have "length (received s) < length (workers s)"
      by (simp add: none_failed_def)
    with i obtain j where j: "j < length (workers s)" "snd (workers s ! j) \<noteq> WReturned"
      by (rule unreturned_worker)
    show ?thesis
    proof (cases "snd (workers s ! j) = WSendDone")
      case sending: True
      let ?t = "s\<lparr>main := MAwait (Suc k),
        workers := (workers s)[j := (fst (workers s ! j), WReturned)],
        received := received s @ [j]\<rparr>"
      from MAwait True j(1) sending have "step (EvDone j) s = Some ?t"
        by (simp add: step_def done_step_def)
      moreover from nf MAwait have "none_failed ?t"
        by (simp add: none_failed_def)
      moreover
      from sum_list_map_update [OF j(1), of "\<lambda>x. work_left (snd x)"
          "(fst (workers s ! j), WReturned)"] sending MAwait
      have "left ?t < left s"
        by (simp add: left_def)
      ultimately show ?thesis
        by (intro exI [of _ "MvDone j"] exI [of _ ?t]) simp
    next
      case False
      have "snd (workers s ! j) = WClose \<or> (\<not> stopping (snd (workers s ! j)) \<and> 0 < cancel s)"
      proof (cases "stopping (snd (workers s ! j))")
        case True
        with False j(2) show ?thesis
          by (cases "snd (workers s ! j)") simp_all
      next
        case live: False
        from MAwait have "main_sent (main s) (num_hosts (flags s)) = num_hosts (flags s) \<or>
          sig_sent (listener s) (num_hosts (flags s)) = num_hosts (flags s)"
          by simp
        from value_ready(1) [OF i this j(1) live] live show ?thesis
          by simp
      qed
      from worker_moves [OF m j(1) ok this] obtain t where
        t: "step (EvWork j e) s = Some t" "left t < left s"
          "length (workers t) = length (workers s)" "main t = main s" "flags t = flags s"
        by blast
      with nf have "none_failed t"
        by (simp add: none_failed_def)
      with t show ?thesis
        by (intro exI [of _ "MvWork j"] exI [of _ t]) simp
    qed
  qed
next
  case MReturned
  with m show ?thesis by simp
qed

text \<open>So the run can be brought to its return.\<close>

lemma can_return:
  assumes "inv s" "none_failed s" "library_ok e"
  shows "\<exists>mvs t. exec (map (event_of e) mvs) s = Some t \<and> main t = MReturned"
  using assms
proof (induction "left s" arbitrary: s rule: less_induct)
  case less
  show ?case
  proof (cases "main s = MReturned")
    case True
    then show ?thesis
      by (intro exI [of _ "[]"] exI [of _ s]) simp
  next
    case False
    from progress [OF less.prems False] obtain mv t where
      t: "step (event_of e mv) s = Some t" "none_failed t" "left t < left s"
      by blast
    from inv_step [OF t(1) less.prems(1)] have "inv t" .
    from less.hyps [OF t(3) this t(2) less.prems(3)] obtain mvs u where
      u: "exec (map (event_of e) mvs) t = Some u" "main u = MReturned"
      by blast
    with t(1) have "exec (map (event_of e) (mv # mvs)) s = Some u"
      by simp
    with u(2) show ?thesis
      by blast
  qed
qed

subsection \<open>Before the deadline\<close>

text \<open>
  \<open>main\<close> leaves the \<^verbatim>\<open>select\<close> of line 211 by the timer only: a step that is not
  the deadline keeps it in the loop of line 200 or in the \<^verbatim>\<open>select\<close>.
\<close>

lemma no_deadline_step:
  assumes "step ev s = Some s'" "ev \<noteq> EvDeadline"
    and "(\<exists>k. main s = MSpawn k) \<or> main s = MSelect"
  shows "(\<exists>k. main s' = MSpawn k) \<or> main s' = MSelect"
proof (cases ev)
  case (EvMain e)
  with assms(1) have "main_step e s = Some s'"
    by (simp add: step_def split: if_splits)
  then show ?thesis
    using assms(3) by (cases rule: main_step_cases) auto
next
  case EvDeadline
  with assms(2) show ?thesis by simp
next
  case (EvSignal sg)
  with assms(1) have "signal_step sg s = Some s'"
    by (simp add: step_def split: if_splits)
  then show ?thesis
    using assms(3) by (cases rule: signal_step_cases) auto
next
  case EvListener
  with assms(1) have "listener_step s = Some s'"
    by (simp add: step_def split: if_splits)
  then show ?thesis
    using assms(3) by (cases rule: listener_step_cases) auto
next
  case (EvWork j e)
  with assms(1) have "work_step j e s = Some s'"
    by (simp add: step_def split: if_splits)
  then show ?thesis
    using assms(3) by (cases rule: work_step_cases) auto
next
  case (EvDone j)
  with assms(1) have "done_step j s = Some s'"
    by (simp add: step_def split: if_splits)
  then show ?thesis
    using assms(3) by (cases rule: done_step_cases) auto
qed

lemma no_deadline_exec:
  assumes "exec evs s = Some s'" "EvDeadline \<notin> set evs"
    and "(\<exists>k. main s = MSpawn k) \<or> main s = MSelect"
  shows "(\<exists>k. main s' = MSpawn k) \<or> main s' = MSelect"
  using assms
proof (induction evs arbitrary: s)
  case Nil
  then show ?case by simp
next
  case (Cons ev evs)
  from Cons.prems(1) obtain t where t: "step ev s = Some t" "exec evs t = Some s'"
    by (auto split: option.splits)
  from Cons.prems(2) have "ev \<noteq> EvDeadline" "EvDeadline \<notin> set evs"
    by auto
  from Cons.IH [OF t(2) this(2) no_deadline_step [OF t(1) this(1) Cons.prems(3)]]
  show ?case .
qed

subsection \<open>A run that stands still\<close>



lemma library_ok_env_ok: "library_ok env_ok"
proof -
  have "length regions = 4"
    by (simp add: regions_def)
  then show ?thesis
    by (simp add: library_ok_def env_ok_def)
qed

subsection \<open>The claims\<close>

text \<open>
  C1. \<^verbatim>\<open>await_workers\<close> counts to \<^verbatim>\<open>nw\<close>, the number of workers asked for, not to
  the number constructed. With one worker asked for and its construction failing, the
  run reaches \<^verbatim>\<open>await_workers\<close> with no worker and no completion outstanding, and no
  schedule lets \<^verbatim>\<open>startStress\<close> return.
\<close>

theorem failed_construction_never_returns:
  "num_hosts flags1 = 1 \<and>
   map_option main (exec blocked_run (boot flags1)) = Some (MAwait 0) \<and>
   map_option workers (exec blocked_run (boot flags1)) = Some [] \<and>
   map_option received (exec blocked_run (boot flags1)) = Some [] \<and>
   \<not> (\<exists>evs s. startStress flags1 (EvMain env_failing # evs) = Inr (Some s) \<and> main s = MReturned)"
proof -
  have "False" if r: "startStress flags1 (EvMain env_failing # evs) = Inr (Some s)"
    and m: "main s = MReturned" for evs s
  proof -
    note i = reached_inv [OF r]
    obtain t where t: "step (EvMain env_failing) (boot flags1) = Some t" "workers t = []"
      "unspawned t = 0"
      by (simp add: run_defs unspawned_def)
    from r t(1) have "exec evs t = Some s"
      by (simp add: startStress_def split: if_splits)
    from workers_bound_exec [OF this] t have "length (workers s) = 0"
      by simp
    moreover from returned_all(1) [OF i(1) m] i(2) have "length (workers s) = 1"
      by (simp add: flags1_def)
    ultimately show False by simp
  qed
  then show ?thesis
    by (auto simp: run_defs blocked_run_def)
qed

text \<open>
  C2, as the code has it. Nothing makes the second trigger a no-op: the signal
  listener and the deadline each run \<^verbatim>\<open>cancel_workers\<close>. With one worker, the signal
  first and the deadline second, the listener has sent one value before the deadline
  and \<open>main\<close> sends a second one after it, which stays in the buffer.
\<close>

theorem second_trigger_sends_again:
  "num_hosts flags1 = 1 \<and>
   map_option cancel_sent (exec before_deadline (boot flags1)) = Some 1 \<and>
   map_option cancel (exec before_deadline (boot flags1)) = Some 0 \<and>
   map_option cancel_sent (exec (before_deadline @ [EvDeadline, EvMain env_ok]) (boot flags1)) = Some 2 \<and>
   map_option cancel (exec (before_deadline @ [EvDeadline, EvMain env_ok]) (boot flags1)) = Some 1 \<and>
   map_option main (exec both_fire (boot flags1)) = Some MReturned \<and>
   map_option cancel_sent (exec both_fire (boot flags1)) = Some 2 \<and>
   map_option received (exec both_fire (boot flags1)) = Some [0]"
  by (simp add: run_defs before_deadline_def both_fire_def cancel_sent_def)

text \<open>
  C2, amended. Each of the two triggers runs \<^verbatim>\<open>cancel_workers\<close>: in every state of a
  run at most \<open>2 * nw\<close> values have been sent on \<^verbatim>\<open>cancel\<close>, each of them is in the
  buffer or was taken by one worker on its way out, and a worker takes one value at
  most. \<open>main\<close> receives no completion twice, and only those of workers that have
  returned from \<^verbatim>\<open>Work\<close>. When no construction has failed the second broadcast does not
  stand in the way of the completions: whatever has happened so far, one trigger or
  both, the goroutines can go on (with a library that keeps constructing clients) to the
  return of \<^verbatim>\<open>startStress\<close>, and there every worker has returned from \<^verbatim>\<open>Work\<close> and
  \<open>main\<close> has received the completion of each exactly once.
\<close>

theorem each_trigger_broadcasts:
  assumes "startStress c evs = Inr (Some s)"
  shows "cancel_sent s \<le> 2 * num_hosts c \<and> cancel_sent s = cancel s + cancel_taken s \<and>
    cancel_taken s \<le> length (workers s) \<and> distinct (received s) \<and>
    set (received s) = returned_workers s \<and>
    (none_failed s \<and> library_ok e \<longrightarrow>
       (\<exists>mvs t. startStress c (evs @ map (event_of e) mvs) = Inr (Some t) \<and>
          main t = MReturned \<and> length (workers t) = num_hosts c \<and>
          map snd (workers t) = replicate (num_hosts c) WReturned \<and>
          distinct (received t) \<and> set (received t) = {..<length (workers t)}))"
proof -
  note i = reached_inv [OF assms]
  from assms have e: "exec evs (boot c) = Some s"
    and v: "url c \<noteq> []" "db c \<noteq> []" "\<not> maxAlloc - hchanSize < num_hosts c"
    by (simp_all add: startStress_def split: if_splits)
  from i have "cancel_sent s \<le> 2 * num_hosts c"
    by (simp add: inv_def inv_cancel_def cancel_sent_def)
  moreover from i have "cancel_sent s = cancel s + cancel_taken s"
    by (simp add: inv_def inv_cancel_def)
  moreover from i have "distinct (received s)" "set (received s) = returned_workers s"
    by (simp_all add: inv_def inv_done_def)
  moreover have "\<exists>mvs t. startStress c (evs @ map (event_of e) mvs) = Inr (Some t) \<and>
      main t = MReturned \<and> length (workers t) = num_hosts c \<and>
      map snd (workers t) = replicate (num_hosts c) WReturned \<and>
      distinct (received t) \<and> set (received t) = {..<length (workers t)}"
    if nf: "none_failed s" and ok: "library_ok e"
  proof -
    from can_return [OF i(1) nf ok] obtain mvs t where
      t: "exec (map (event_of e) mvs) s = Some t" "main t = MReturned"
      by blast
    from exec_append_Some [OF e t(1)] v have
      r: "startStress c (evs @ map (event_of e) mvs) = Inr (Some t)"
      by (simp add: startStress_def)
    note j = reached_inv [OF r]
    from returned_all(1) [OF j(1) t(2)] j(2) have l: "length (workers t) = num_hosts c"
      by simp
    from all_returned [OF j(1) t(2)] j(2) have
      a: "map snd (workers t) = replicate (num_hosts c) WReturned"
      by simp
    from j(1) have d: "distinct (received t)"
      by (simp add: inv_def inv_done_def)
    from j returned_all(2) [OF j(1) t(2)] l have "set (received t) = {..<length (workers t)}"
      by (simp add: inv_def inv_done_def)
    with r t(2) l a d show ?thesis
      by blast
  qed
  ultimately show ?thesis
    by (simp add: cancel_taken_le)
qed

theorem each_trigger_broadcasts_witness:
  "\<exists>s. startStress flags1 (before_deadline @ [EvDeadline, EvMain env_ok]) = Inr (Some s) \<and>
     num_hosts flags1 = 1 \<and> main s = MCancel 1 \<and> listener s = SExit \<and>
     none_failed s \<and> library_ok env_ok \<and>
     cancel_sent s = 2 \<and> cancel s = 1 \<and> cancel_taken s = 1 \<and> received s = [] \<and>
     (\<exists>mvs t. startStress flags1
          (before_deadline @ [EvDeadline, EvMain env_ok] @ map (event_of env_ok) mvs) =
          Inr (Some t) \<and>
        main t = MReturned \<and> map snd (workers t) = [WReturned] \<and> set (received t) = {0})"
proof -
  obtain s where s: "startStress flags1 (before_deadline @ [EvDeadline, EvMain env_ok]) = Inr (Some s)"
    "num_hosts flags1 = 1" "main s = MCancel 1" "listener s = SExit" "none_failed s"
    "cancel_sent s = 2" "cancel s = 1" "received s = []"
    by (simp add: startStress_def run_defs before_deadline_def cancel_sent_def none_failed_def)
  note t = each_trigger_broadcasts [OF s(1), of env_ok]
  from t s(6,7) have k: "cancel_taken s = 1"
    by simp
  have one: "{..<Suc 0} = {0::nat}" by auto
  note t [THEN conjunct2, THEN conjunct2, THEN conjunct2, THEN conjunct2, THEN conjunct2,
    rule_format, OF conjI [OF s(5) library_ok_env_ok]]
  then obtain mvs u where
    u: "startStress flags1 ((before_deadline @ [EvDeadline, EvMain env_ok]) @
          map (event_of env_ok) mvs) = Inr (Some u)"
      "main u = MReturned" "length (workers u) = num_hosts flags1"
      "map snd (workers u) = replicate (num_hosts flags1) WReturned"
      "set (received u) = {..<length (workers u)}"
    by (elim exE conjE)
  from u(1) have u1: "startStress flags1
      (before_deadline @ [EvDeadline, EvMain env_ok] @ map (event_of env_ok) mvs) = Inr (Some u)"
    by (simp only: append_assoc)
  from u(3,4,5) s(2) have "map snd (workers u) = [WReturned]" "set (received u) = {0}"
    by (simp_all add: one)
  with u1 u(2) have
    "\<exists>mvs t. startStress flags1
          (before_deadline @ [EvDeadline, EvMain env_ok] @ map (event_of env_ok) mvs) =
          Inr (Some t) \<and>
        main t = MReturned \<and> map snd (workers t) = [WReturned] \<and> set (received t) = {0}"
    by (intro exI [of _ mvs] exI [of _ u] conjI)
  with s k library_ok_env_ok show ?thesis
    by (intro exI [of _ s]) simp
qed

text \<open>
  C3. An interrupt by itself does not end the run. In \<open>before_deadline\<close> the listener
  has logged the signal, has sent on \<^verbatim>\<open>cancel\<close> and has exited, and the worker has
  closed its client and stands in the send on \<^verbatim>\<open>done\<close>; but \<open>main\<close> is still in the
  \<^verbatim>\<open>select\<close> of line 211, whose only case is the timer, and has received nothing.
  Whatever the flags and the schedule, \<^verbatim>\<open>startStress\<close> has not returned in a run where
  the deadline has not fired. The deadline by itself does end the run (the
  construction followed by \<open>life1\<close>, where no signal comes).
\<close>

theorem interrupt_alone_never_returns:
  "startStress flags1 (EvMain env_ok # life1) = Inr (exec (EvMain env_ok # life1) (boot flags1)) \<and>
   startStress flags1 before_deadline = Inr (exec before_deadline (boot flags1)) \<and>
   map_option main (exec (EvMain env_ok # life1) (boot flags1)) = Some MReturned \<and>
   map_option received (exec (EvMain env_ok # life1) (boot flags1)) = Some [0] \<and>
   map_option listener (exec before_deadline (boot flags1)) = Some SExit \<and>
   map_option (\<lambda>s. map snd (workers s)) (exec before_deadline (boot flags1)) = Some [WSendDone] \<and>
   map_option main (exec before_deadline (boot flags1)) = Some MSelect \<and>
   map_option received (exec before_deadline (boot flags1)) = Some [] \<and>
   \<not> (\<exists>c evs s. startStress c evs = Inr (Some s) \<and> EvDeadline \<notin> set evs \<and> main s = MReturned)"
proof -
  have "False" if r: "startStress c evs = Inr (Some s)" and d: "EvDeadline \<notin> set evs"
    and m: "main s = MReturned" for c evs s
  proof -
    from r have "exec evs (boot c) = Some s"
      by (simp add: startStress_def split: if_splits)
    from no_deadline_exec [OF this d] m show False
      by (simp add: boot_def)
  qed
  then have "\<not> (\<exists>c evs s. startStress c evs = Inr (Some s) \<and> EvDeadline \<notin> set evs \<and>
    main s = MReturned)"
    by blast
  moreover have "map_option main (exec (EvMain env_ok # life1) (boot flags1)) = Some MReturned"
    "map_option received (exec (EvMain env_ok # life1) (boot flags1)) = Some [0]"
    by (simp_all add: run_defs life1_def write_defs)
  moreover have
    "startStress flags1 (EvMain env_ok # life1) = Inr (exec (EvMain env_ok # life1) (boot flags1))"
    "startStress flags1 before_deadline = Inr (exec before_deadline (boot flags1))"
    by (simp_all add: startStress_def flags1_def maxAlloc_def hchanSize_def)
  moreover have "map_option listener (exec before_deadline (boot flags1)) = Some SExit"
    "map_option (\<lambda>s. map snd (workers s)) (exec before_deadline (boot flags1)) = Some [WSendDone]"
    "map_option main (exec before_deadline (boot flags1)) = Some MSelect"
    "map_option received (exec before_deadline (boot flags1)) = Some []"
    by (simp_all add: run_defs before_deadline_def)
  ultimately show ?thesis
    by simp
qed


text \<open>
  C5. When \<^verbatim>\<open>math/rand\<close> keeps its ranges (\<^verbatim>\<open>Intn(n)\<close> below \<open>n\<close>, \<^verbatim>\<open>Float64()\<close> in
  \<open>[0, 1)\<close>) and the client library accepts the batch and its points, \<^verbatim>\<open>Write\<close> hands
  \<^verbatim>\<open>Client.Write\<close> a batch of exactly \<^verbatim>\<open>NumPoints\<close> points (none when it is negative).
  Each has the measurement \<^verbatim>\<open>cpu_usage\<close>, the worker's host name as \<^verbatim>\<open>host\<close>, a
  \<^verbatim>\<open>region\<close> out of \<open>regions\<close>, and the two fields \<^verbatim>\<open>idle\<close> and \<^verbatim>\<open>busy\<close>; \<^verbatim>\<open>idle\<close>
  is 100 times the draw of \<^verbatim>\<open>Float64()\<close>, so it lies in \<open>[0, 100)\<close>, and the two add up
  to 100. (The distribution of the draw is \<^verbatim>\<open>math/rand\<close>'s; the sum is exact because
  rounding is not modelled.)
\<close>

theorem batch_of_count_points:
  assumes "\<forall>i. rand_Intn e i (length regions) < length regions"
    and "\<forall>i. 0 \<le> rand_Float64 e i \<and> rand_Float64 e i < 1"
    and "\<forall>nm tgs flds. point_error e nm tgs flds = None"
    and "batch_points_error e \<lparr>Database = DB w, Precision = ''ms''\<rparr> = None"
  shows "\<exists>ps. Write e w =
        Some ([], write_error e (Client w)
                   \<lparr>config = \<lparr>Database = DB w, Precision = ''ms''\<rparr>, points = ps\<rparr>) \<and>
      int (length ps) = max 0 (NumPoints w) \<and>
      (\<forall>i < length ps.
         p_name (ps ! i) = ''cpu_usage'' \<and>
         p_tags (ps ! i) ''host'' = Some (Hostname w) \<and>
         (\<exists>r \<in> set regions. p_tags (ps ! i) ''region'' = Some r) \<and>
         dom (p_fields (ps ! i)) = {''idle'', ''busy''} \<and>
         (\<exists>idle busy.
            p_fields (ps ! i) ''idle'' = Some idle \<and> p_fields (ps ! i) ''busy'' = Some busy \<and>
            idle = rand_Float64 e i * 100 \<and> 0 \<le> idle \<and> idle < 100 \<and> idle + busy = 100))"
proof -
  let ?bp = "\<lparr>config = \<lparr>Database = DB w, Precision = ''ms''\<rparr>, points = []\<rparr>"
  from Write_loop_ok [OF assms(1,3), of w 0 ?bp] obtain ps where
    ps: "Write_loop e w 0 ?bp = Some (Inr (?bp\<lparr>points := ps\<rparr>))"
      "length ps = nat (NumPoints w)" "\<forall>k < length ps. generated e w k (ps ! k)"
    by auto
  from ps(1) assms(4) have "Write e w =
      Some ([], write_error e (Client w)
                 \<lparr>config = \<lparr>Database = DB w, Precision = ''ms''\<rparr>, points = ps\<rparr>)"
    by (simp add: Write_def NewBatchPoints_def)
  moreover from ps(2) have "int (length ps) = max 0 (NumPoints w)"
    by simp
  moreover have "p_name (ps ! i) = ''cpu_usage'' \<and>
         p_tags (ps ! i) ''host'' = Some (Hostname w) \<and>
         (\<exists>r \<in> set regions. p_tags (ps ! i) ''region'' = Some r) \<and>
         dom (p_fields (ps ! i)) = {''idle'', ''busy''} \<and>
         (\<exists>idle busy.
            p_fields (ps ! i) ''idle'' = Some idle \<and> p_fields (ps ! i) ''busy'' = Some busy \<and>
            idle = rand_Float64 e i * 100 \<and> 0 \<le> idle \<and> idle < 100 \<and> idle + busy = 100)"
    if "i < length ps" for i
  proof -
    from ps(3) that have g: "generated e w i (ps ! i)" by simp
    from assms(1) have "regions ! rand_Intn e i (length regions) \<in> set regions"
      by simp
    with g assms(2) [rule_format, of i] show ?thesis
      by (auto simp: generated_def max_idle_def)
  qed
  ultimately show ?thesis by blast
qed

theorem batch_of_count_points_witness:
  "(\<forall>i. rand_Intn env_ok i (length regions) < length regions) \<and>
   (\<forall>i. 0 \<le> rand_Float64 env_ok i \<and> rand_Float64 env_ok i < 1) \<and>
   (\<forall>nm tgs flds. point_error env_ok nm tgs flds = None) \<and>
   batch_points_error env_ok \<lparr>Database = DB worker1, Precision = ''ms''\<rparr> = None \<and>
   (\<exists>ps :: Point list. Write env_ok worker1 = Some ([], None) \<and> length ps = 2 \<and>
      p_name (ps ! 1) = ''cpu_usage'' \<and> p_tags (ps ! 1) ''host'' = Some ''hetsfan-00000'' \<and>
      p_fields (ps ! 1) ''idle'' = Some 25 \<and> p_fields (ps ! 1) ''busy'' = Some 75)"
proof -
  have len: "length regions = 4" by (simp add: regions_def)
  have h: "\<forall>i. rand_Intn env_ok i (length regions) < length regions"
    "\<forall>i. 0 \<le> rand_Float64 env_ok i \<and> rand_Float64 env_ok i < 1"
    "\<forall>nm tgs flds. point_error env_ok nm tgs flds = None"
    "batch_points_error env_ok \<lparr>Database = DB worker1, Precision = ''ms''\<rparr> = None"
    using len by (simp_all add: env_ok_def)
  have we: "write_error env_ok c bp = None" for c bp
    by (simp add: env_ok_def)
  have fl: "rand_Float64 env_ok i = 1 / 4" for i
    by (simp add: env_ok_def)
  from batch_of_count_points [OF h] obtain ps where
    ps: "Write env_ok worker1 =
           Some ([], write_error env_ok (Client worker1)
             \<lparr>config = \<lparr>Database = DB worker1, Precision = ''ms''\<rparr>, points = ps\<rparr>)"
      "int (length ps) = max 0 (NumPoints worker1)"
      "\<forall>i < length ps.
         p_name (ps ! i) = ''cpu_usage'' \<and>
         p_tags (ps ! i) ''host'' = Some (Hostname worker1) \<and>
         (\<exists>r \<in> set regions. p_tags (ps ! i) ''region'' = Some r) \<and>
         dom (p_fields (ps ! i)) = {''idle'', ''busy''} \<and>
         (\<exists>idle busy.
            p_fields (ps ! i) ''idle'' = Some idle \<and> p_fields (ps ! i) ''busy'' = Some busy \<and>
            idle = rand_Float64 env_ok i * 100 \<and> 0 \<le> idle \<and> idle < 100 \<and> idle + busy = 100)"
    by blast
  from ps(2) have l: "length ps = 2" by (simp add: worker1_def)
  from ps(1) have w: "Write env_ok worker1 = Some ([], None)"
    by (simp add: we)
  from ps(3) l have "p_name (ps ! 1) = ''cpu_usage'' \<and>
      p_tags (ps ! 1) ''host'' = Some (Hostname worker1) \<and>
      (\<exists>idle busy.
         p_fields (ps ! 1) ''idle'' = Some idle \<and> p_fields (ps ! 1) ''busy'' = Some busy \<and>
         idle = rand_Float64 env_ok 1 * 100 \<and> 0 \<le> idle \<and> idle < 100 \<and> idle + busy = 100)"
    by simp
  then have "p_name (ps ! 1) = ''cpu_usage'' \<and>
      p_tags (ps ! 1) ''host'' = Some ''hetsfan-00000'' \<and>
      p_fields (ps ! 1) ''idle'' = Some 25 \<and> p_fields (ps ! 1) ''busy'' = Some 75"
    by (auto simp: fl worker1_def)
  with w l have "\<exists>ps :: Point list. Write env_ok worker1 = Some ([], None) \<and> length ps = 2 \<and>
      p_name (ps ! 1) = ''cpu_usage'' \<and> p_tags (ps ! 1) ''host'' = Some ''hetsfan-00000'' \<and>
      p_fields (ps ! 1) ''idle'' = Some 25 \<and> p_fields (ps ! 1) ''busy'' = Some 75"
    by - (rule exI [of _ ps], simp)
  with h show ?thesis by simp
qed

text \<open>
  C6. Once one call of \<^verbatim>\<open>cancel_workers\<close> has sent all its values (by \<open>main\<close> or by
  the signal listener), a value waits in \<^verbatim>\<open>cancel\<close> for every worker still in its
  loop, in every state of every run. The worker polls at the head of the loop: from
  there its next step takes the value and goes to \<^verbatim>\<open>Close\<close>, with no further
  \<^verbatim>\<open>Write\<close>. From a sleep the poll is two steps of the worker away, and from inside
  \<^verbatim>\<open>Write\<close> three: the write in flight, one sleep, the poll. This holds in every
  later state of the run too, whatever the other goroutines have done in between: a
  worker at the head of its loop takes a value at its next step. The bound is in steps
  of the worker; durations are not part of the model.
\<close>

theorem cancellation_seen_at_next_poll:
  assumes run: "startStress c evs = Inr (Some s)"
    and sent: "main_sent (main s) (num_hosts c) = num_hosts c \<or>
      sig_sent (listener s) (num_hosts c) = num_hosts c"
    and j: "j < length (workers s)" "workers s ! j = (w, pc)" "\<not> stopping pc"
  shows "0 < cancel s \<and> main s \<noteq> MReturned \<and>
    (pc = WPoll \<longrightarrow>
       (\<exists>s'. exec [EvWork j e1] s = Some s' \<and> workers s' ! j = (w, WClose) \<and>
          logs s' = logs s @
            [(DebugLevel, [(''worker'', FString (Hostname w))], ''Quitting...'')])) \<and>
    (pc = WSleep \<or> pc = WDelay \<longrightarrow>
       (\<exists>s'. exec [EvWork j e1, EvWork j e2] s = Some s' \<and> workers s' ! j = (w, WClose))) \<and>
    (pc = WWrite \<and> Write e1 w \<noteq> None \<longrightarrow>
       (\<exists>s'. exec [EvWork j e1, EvWork j e2, EvWork j e3] s = Some s' \<and>
          workers s' ! j = (w, WClose))) \<and>
    (\<forall>evs' t k v. exec evs' s = Some t \<and> k < length (workers t) \<and> workers t ! k = (v, WPoll) \<longrightarrow>
       (\<exists>t'. step (EvWork k e1) t = Some t' \<and> workers t' ! k = (v, WClose)))"
proof -
  note i = reached_inv [OF run]
  from j have "\<not> stopping (snd (workers s ! j))" by simp
  from value_ready [OF i(1) _ j(1) this] sent i(2)
  have r: "0 < cancel s" "main s \<noteq> MReturned"
    by simp_all
  have 1: "\<exists>s'. exec [EvWork j e1] s = Some s' \<and> workers s' ! j = (w, WClose) \<and>
      logs s' = logs s @ [(DebugLevel, [(''worker'', FString (Hostname w))], ''Quitting...'')]"
    if "pc = WPoll"
    using that r j by (simp add: step_def work_step_def)
  have 2: "\<exists>s'. exec [EvWork j e1, EvWork j e2] s = Some s' \<and> workers s' ! j = (w, WClose)"
    if "pc = WSleep \<or> pc = WDelay"
    using that r j by (auto simp: step_def work_step_def)
  have 3: "\<exists>s'. exec [EvWork j e1, EvWork j e2, EvWork j e3] s = Some s' \<and>
      workers s' ! j = (w, WClose)"
    if "pc = WWrite" "Write e1 w \<noteq> None"
    using that r j by (auto simp: step_def work_step_def)
  have 4: "\<exists>t'. step (EvWork k e1) t = Some t' \<and> workers t' ! k = (v, WClose)"
    if t: "exec evs' s = Some t" and k: "k < length (workers t)" "workers t ! k = (v, WPoll)"
    for evs' t k v
  proof -
    from inv_exec [OF t i(1)] have it: "inv t" .
    from flags_exec [OF t] i(2) have ft: "flags t = c" by simp
    from broadcast_stays [OF t] sent i(2) ft
    have st: "main_sent (main t) (num_hosts (flags t)) = num_hosts (flags t) \<or>
        sig_sent (listener t) (num_hosts (flags t)) = num_hosts (flags t)"
      by simp
    from k have "\<not> stopping (snd (workers t ! k))" by simp
    from value_ready [OF it st k(1) this] have "0 < cancel t" "main t \<noteq> MReturned" .
    with k show ?thesis
      by (simp add: step_def work_step_def)
  qed
  from r 1 2 3 4 show ?thesis by blast
qed

theorem cancellation_seen_at_next_poll_witness:
  "(\<exists>s w s'. startStress flags1 at_poll = Inr (Some s) \<and> main_sent (main s) 1 = 1 \<and>
      0 < length (workers s) \<and> workers s ! 0 = (w, WPoll) \<and> \<not> stopping WPoll \<and>
      0 < cancel s \<and> exec [EvWork 0 env_ok] s = Some s' \<and> workers s' ! 0 = (w, WClose)) \<and>
   (\<exists>s w s'. startStress flags1 in_delay = Inr (Some s) \<and> main_sent (main s) 1 = 1 \<and>
      0 < length (workers s) \<and> workers s ! 0 = (w, WDelay) \<and> \<not> stopping WDelay \<and>
      exec [EvWork 0 env_ok, EvWork 0 env_ok] s = Some s' \<and> workers s' ! 0 = (w, WClose)) \<and>
   (\<exists>s w s'. startStress flags1 in_sleep = Inr (Some s) \<and> main_sent (main s) 1 = 1 \<and>
      0 < length (workers s) \<and> workers s ! 0 = (w, WSleep) \<and> \<not> stopping WSleep \<and>
      exec [EvWork 0 env_ok, EvWork 0 env_ok] s = Some s' \<and> workers s' ! 0 = (w, WClose)) \<and>
   (\<exists>s w s'. startStress flags1 in_write = Inr (Some s) \<and> main_sent (main s) 1 = 1 \<and>
      0 < length (workers s) \<and> workers s ! 0 = (w, WWrite) \<and> \<not> stopping WWrite \<and>
      Write env_failing w \<noteq> None \<and>
      exec [EvWork 0 env_failing, EvWork 0 env_ok, EvWork 0 env_ok] s = Some s' \<and>
      workers s' ! 0 = (w, WClose)) \<and>
   (\<exists>s t w t'. startStress flags1 in_sleep = Inr (Some s) \<and>
      exec [EvSignal SIGHUP, EvWork 0 env_ok] s = Some t \<and> 0 < length (workers t) \<and>
      workers t ! 0 = (w, WPoll) \<and> step (EvWork 0 env_ok) t = Some t' \<and>
      workers t' ! 0 = (w, WClose))"
proof -
  have c1: "\<exists>s w s'. startStress flags1 at_poll = Inr (Some s) \<and> main_sent (main s) 1 = 1 \<and>
      0 < length (workers s) \<and> workers s ! 0 = (w, WPoll) \<and> \<not> stopping WPoll \<and>
      0 < cancel s \<and> exec [EvWork 0 env_ok] s = Some s' \<and> workers s' ! 0 = (w, WClose)"
  proof -
  obtain s w where s: "startStress flags1 at_poll = Inr (Some s)" "main_sent (main s) 1 = 1"
    "0 < length (workers s)" "workers s ! 0 = (w, WPoll)"
    by (simp add: startStress_def run_defs at_poll_def)
  have n: "\<not> stopping WPoll" by simp
  from s(2) have sent: "main_sent (main s) (num_hosts flags1) = num_hosts flags1 \<or>
      sig_sent (listener s) (num_hosts flags1) = num_hosts flags1"
    by (simp add: one_host)
  from cancellation_seen_at_next_poll [OF s(1) sent s(3,4) n, of env_ok]
  obtain s' where "0 < cancel s" "exec [EvWork 0 env_ok] s = Some s'"
    "workers s' ! 0 = (w, WClose)"
    by blast
  with s n show ?thesis by blast
  qed
  have c2: "\<exists>s w s'. startStress flags1 in_delay = Inr (Some s) \<and> main_sent (main s) 1 = 1 \<and>
      0 < length (workers s) \<and> workers s ! 0 = (w, WDelay) \<and> \<not> stopping WDelay \<and>
      exec [EvWork 0 env_ok, EvWork 0 env_ok] s = Some s' \<and> workers s' ! 0 = (w, WClose)"
  proof -
  obtain s w where s: "startStress flags1 in_delay = Inr (Some s)" "main_sent (main s) 1 = 1"
    "0 < length (workers s)" "workers s ! 0 = (w, WDelay)"
    by (simp add: startStress_def run_defs in_delay_def)
  have n: "\<not> stopping WDelay" by simp
  from s(2) have sent: "main_sent (main s) (num_hosts flags1) = num_hosts flags1 \<or>
      sig_sent (listener s) (num_hosts flags1) = num_hosts flags1"
    by (simp add: one_host)
  from cancellation_seen_at_next_poll [OF s(1) sent s(3,4) n, of env_ok env_ok]
  obtain s' where "exec [EvWork 0 env_ok, EvWork 0 env_ok] s = Some s'"
    "workers s' ! 0 = (w, WClose)"
    by blast
  with s n show ?thesis by blast
  qed
  have c3: "\<exists>s w s'. startStress flags1 in_sleep = Inr (Some s) \<and> main_sent (main s) 1 = 1 \<and>
      0 < length (workers s) \<and> workers s ! 0 = (w, WSleep) \<and> \<not> stopping WSleep \<and>
      exec [EvWork 0 env_ok, EvWork 0 env_ok] s = Some s' \<and> workers s' ! 0 = (w, WClose)"
  proof -
  obtain s w where s: "startStress flags1 in_sleep = Inr (Some s)" "main_sent (main s) 1 = 1"
    "0 < length (workers s)" "workers s ! 0 = (w, WSleep)"
    by (simp add: startStress_def run_defs in_sleep_def write_defs)
  have n: "\<not> stopping WSleep" by simp
  from s(2) have sent: "main_sent (main s) (num_hosts flags1) = num_hosts flags1 \<or>
      sig_sent (listener s) (num_hosts flags1) = num_hosts flags1"
    by (simp add: one_host)
  from cancellation_seen_at_next_poll [OF s(1) sent s(3,4) n, of env_ok env_ok]
  obtain s' where "exec [EvWork 0 env_ok, EvWork 0 env_ok] s = Some s'"
    "workers s' ! 0 = (w, WClose)"
    by blast
  with s n show ?thesis by blast
  qed
  have c4: "\<exists>s w s'. startStress flags1 in_write = Inr (Some s) \<and> main_sent (main s) 1 = 1 \<and>
      0 < length (workers s) \<and> workers s ! 0 = (w, WWrite) \<and> \<not> stopping WWrite \<and>
      Write env_failing w \<noteq> None \<and>
      exec [EvWork 0 env_failing, EvWork 0 env_ok, EvWork 0 env_ok] s = Some s' \<and>
      workers s' ! 0 = (w, WClose)"
  proof -
  obtain s w where s: "startStress flags1 in_write = Inr (Some s)" "main_sent (main s) 1 = 1"
    "0 < length (workers s)" "workers s ! 0 = (w, WWrite)" "Write env_failing w \<noteq> None"
    by (simp add: startStress_def run_defs in_write_def write_defs)
  have n: "\<not> stopping WWrite" by simp
  from s(2) have sent: "main_sent (main s) (num_hosts flags1) = num_hosts flags1 \<or>
      sig_sent (listener s) (num_hosts flags1) = num_hosts flags1"
    by (simp add: one_host)
  from cancellation_seen_at_next_poll [OF s(1) sent s(3,4) n, of env_failing env_ok env_ok] s(5)
  obtain s' where "exec [EvWork 0 env_failing, EvWork 0 env_ok, EvWork 0 env_ok] s = Some s'"
    "workers s' ! 0 = (w, WClose)"
    by blast
  with s n show ?thesis by blast
  qed
  have c5: "\<exists>s t w t'. startStress flags1 in_sleep = Inr (Some s) \<and>
      exec [EvSignal SIGHUP, EvWork 0 env_ok] s = Some t \<and> 0 < length (workers t) \<and>
      workers t ! 0 = (w, WPoll) \<and> step (EvWork 0 env_ok) t = Some t' \<and>
      workers t' ! 0 = (w, WClose)"
  proof -
    obtain s t w where s: "startStress flags1 in_sleep = Inr (Some s)"
      "main_sent (main s) 1 = 1" "0 < length (workers s)" "workers s ! 0 = (w, WSleep)"
      and t: "exec [EvSignal SIGHUP, EvWork 0 env_ok] s = Some t"
      "0 < length (workers t)" "workers t ! 0 = (w, WPoll)"
      by (simp add: startStress_def run_defs in_sleep_def write_defs)
    have n: "\<not> stopping WSleep" by simp
    from s(2) have sent: "main_sent (main s) (num_hosts flags1) = num_hosts flags1 \<or>
        sig_sent (listener s) (num_hosts flags1) = num_hosts flags1"
      by (simp add: one_host)
    note later = cancellation_seen_at_next_poll [OF s(1) sent s(3,4) n, of env_ok env_ok env_ok,
        THEN conjunct2, THEN conjunct2, THEN conjunct2, THEN conjunct2, THEN conjunct2]
    with t obtain t' where "step (EvWork 0 env_ok) t = Some t'" "workers t' ! 0 = (w, WClose)"
      by blast
    with s(1) t show ?thesis by blast
  qed
  from c1 c2 c3 c4 c5 show ?thesis by (intro conjI)
qed

text \<open>
  C7. The timer of line 212 is armed with \<^verbatim>\<open>time.Second * time.Duration(to)\<close>, and
  the conversion drops the fraction of \<open>to\<close> before the multiplication. With the
  default \<^verbatim>\<open>--timeout 66.6\<close> the timer is armed with 66 seconds, not with the 66600
  milliseconds that the conversion of line 152 gives for the same value; with 0.5 it is
  armed with zero.
\<close>

theorem deadline_drops_fraction:
  "timeout flags1 = 666 / 10 \<and>
   map_option timer (exec [EvMain env_ok, EvMain env_ok] (boot flags1)) = Some (Some (66 * Second)) \<and>
   66 * Second \<noteq> milliseconds (timeout flags1) \<and>
   milliseconds (timeout flags1) = 66600 * Millisecond \<and>
   deadline (1 / 2) = 0"
  by (simp add: run_defs deadline_def milliseconds_def
        Duration_of_float64_def trunc_float64_def Second_def Millisecond_def)



text \<open>
  C9. \<^verbatim>\<open>startStress\<close> checks the flags before anything else: with an empty URL it
  returns the exit error with code 1, with a URL and an empty database name the exit
  error with code 2. This holds under every schedule \<open>evs\<close>: no event of the run, so
  no \<^verbatim>\<open>NewWorker\<close>, no \<^verbatim>\<open>go\<close> and no timer, takes place.
\<close>

theorem startStress_checks_flags_first:
  "(url c = [] \<longrightarrow> startStress c evs = Inl (ExitError ''You must specify a URL'' 1)) \<and>
   (url c \<noteq> [] \<and> db c = [] \<longrightarrow>
      startStress c evs = Inl (ExitError ''You must specify a database'' 2))"
  by (simp add: startStress_def)

theorem startStress_checks_flags_first_witness:
  "url (flags1\<lparr>url := []\<rparr>) = [] \<and>
   startStress (flags1\<lparr>url := []\<rparr>) [EvMain env_ok] = Inl (ExitError ''You must specify a URL'' 1) \<and>
   url (flags1\<lparr>db := []\<rparr>) \<noteq> [] \<and> db (flags1\<lparr>db := []\<rparr>) = [] \<and>
   startStress (flags1\<lparr>db := []\<rparr>) [EvMain env_ok] = Inl (ExitError ''You must specify a database'' 2)"
  using startStress_checks_flags_first [of "flags1\<lparr>url := []\<rparr>" "[EvMain env_ok]"]
    startStress_checks_flags_first [of "flags1\<lparr>db := []\<rparr>" "[EvMain env_ok]"]
  by (simp add: flags1_def)

text \<open>
  C10. No step of the run changes the \<^verbatim>\<open>Worker\<close> value of a worker that exists:
  after any events, those of its own loop and of its way out included, the fields
  \<^verbatim>\<open>Client\<close>, \<^verbatim>\<open>Hostname\<close>, \<^verbatim>\<open>DB\<close>, \<^verbatim>\<open>NumPoints\<close>, \<^verbatim>\<open>Interval\<close>, \<^verbatim>\<open>Done\<close> and
  \<^verbatim>\<open>Cancel\<close> are what they were. Taken from the state right after the construction,
  they are the values \<^verbatim>\<open>NewWorker\<close> gave them.
\<close>

theorem Work_keeps_worker:
  assumes "exec evs s = Some s'" and "j < length (workers s)"
  shows "j < length (workers s') \<and> fst (workers s' ! j) = fst (workers s ! j)"
  using assms
proof (induction evs arbitrary: s)
  case Nil
  then show ?case by simp
next
  case (Cons ev evs)
  from Cons.prems(1) obtain t where t: "step ev s = Some t" "exec evs t = Some s'"
    by (auto split: option.splits)
  from worker_frame_step [OF t(1) Cons.prems(2)]
  have "j < length (workers t)" "fst (workers t ! j) = fst (workers s ! j)"
    by simp_all
  with Cons.IH [OF t(2)] show ?case by simp
qed

theorem Work_keeps_worker_witness:
  "\<exists>s s'. exec [EvMain env_ok] (boot flags1) = Some s \<and> exec life1 s = Some s' \<and>
     0 < length (workers s) \<and> fst (workers s ! 0) = worker1 \<and>
     main s' = MReturned \<and> snd (workers s' ! 0) = WReturned \<and>
     fst (workers s' ! 0) = worker1"
proof -
  obtain s where s: "exec [EvMain env_ok] (boot flags1) = Some s" "length (workers s) = 1"
    "fst (workers s ! 0) = worker1"
    by (simp add: step_def main_step_def boot_def one_host NewWorker_flags1)
  have "\<exists>s'. exec (EvMain env_ok # life1) (boot flags1) = Some s' \<and> main s' = MReturned \<and>
      snd (workers s' ! 0) = WReturned"
    by (simp add: run_defs life1_def write_defs)
  with s(1) obtain s' where s': "exec life1 s = Some s'" "main s' = MReturned"
    "snd (workers s' ! 0) = WReturned"
    by (auto split: option.splits)
  from s(2) have "0 < length (workers s)" by simp
  from Work_keeps_worker [OF s'(1) this] s s' show ?thesis
    by auto
qed

end
